theory Spec2Isabelle
  imports Main
begin

section \<open>Pallanguzhi: the rules engine (class PallanguzhiGame)\<close>

text \<open>
  The game object of the JavaScript source is a record; every method that mutates
  \<open>this\<close> takes the game and returns the updated game next to its return value.
  Pit indices are JavaScript numbers that the callers may pick freely, hence \<open>int\<close>;
  stone counts and scores only ever hold non-negative whole numbers, hence \<open>nat\<close>.
  Every list access \<open>b ! nat i\<close> below sits behind the range checks of the source
  (0..13 on a board of 14 pits).
\<close>

datatype side = Player | AI

datatype winner_t = WinPlayer | WinAI | WinTie

datatype error = InvalidMove

record capture =
  pit :: int
  stones :: nat

record moveDetails =
  startPit :: int
  path :: "int list"
  captures :: "capture list"
  bonusTurn :: bool

record historyEntry =
  h_player :: side
  h_move :: moveDetails
  h_boardState :: "nat list"
  h_scores :: "nat \<times> nat"

record game =
  board :: "nat list"
  playerScore :: nat
  aiScore :: nat
  currentPlayer :: side
  gameOver :: bool
  winner :: "winner_t option"
  lastMove :: "int option"
  capturedStones :: nat
  moveHistory :: "historyEntry list"

record moveResult =
  r_moveDetails :: moveDetails
  r_captured :: nat
  r_bonusTurn :: bool
  r_gameOver :: bool
  r_winner :: "winner_t option"

record simulatedState =
  s_board :: "nat list"
  s_playerScore :: nat
  s_aiScore :: nat
  s_currentPlayer :: side
  s_gameOver :: bool
  s_winner :: "winner_t option"
  s_moveResult :: "error + moveResult"

definition initializeGame :: game where
  "initializeGame =
     \<lparr> board = ((replicate 14 6)[3 := 12])[10 := 12],
       playerScore = 0, aiScore = 0, currentPlayer = Player,
       gameOver = False, winner = None,
       lastMove = None, capturedStones = 0, moveHistory = [] \<rparr>"

definition opponent :: "side \<Rightarrow> side" where
  "opponent s = (if s = Player then AI else Player)"

definition isValidMove :: "game \<Rightarrow> int \<Rightarrow> bool" where
  "isValidMove g pitIndex =
     (if gameOver g then False
      else if currentPlayer g = Player \<and> (pitIndex < 0 \<or> pitIndex > 6) then False
      else if currentPlayer g = AI \<and> (pitIndex < 7 \<or> pitIndex > 13) then False
      else board g ! nat pitIndex > 0)"

definition getNextPit :: "int \<Rightarrow> int" where
  "getNextPit currentPit =
     (if currentPit \<ge> 0 \<and> currentPit \<le> 6
      then (if currentPit = 6 then 7 else currentPit + 1)
      else (if currentPit = 13 then 0 else currentPit + 1))"

definition isOwnPit :: "game \<Rightarrow> int \<Rightarrow> bool" where
  "isOwnPit g pitIndex =
     (if currentPlayer g = Player then pitIndex \<ge> 0 \<and> pitIndex \<le> 6
      else pitIndex \<ge> 7 \<and> pitIndex \<le> 13)"

definition getAdjacentPits :: "int \<Rightarrow> int list" where
  "getAdjacentPits pitIndex =
     (if pitIndex > 0 then [pitIndex - 1] else []) @
     (if pitIndex < 13 then [pitIndex + 1] else []) @
     (if pitIndex = 0 then [13] else []) @
     (if pitIndex = 13 then [0] else [])"

text \<open>The sowing loop of \<open>makeMove\<close>: board, current pit, stones in hand, path so far.\<close>

fun sow :: "nat list \<Rightarrow> int \<Rightarrow> nat \<Rightarrow> int list \<Rightarrow> nat list \<times> int \<times> int list" where
  "sow b currentPit 0 pth = (b, currentPit, pth)"
| "sow b currentPit (Suc stonesInHand) pth =
     (let nxt = getNextPit currentPit
      in sow (b[nat nxt := b ! nat nxt + 1]) nxt stonesInHand (pth @ [nxt]))"

text \<open>The loop over the adjacent pits inside \<open>checkCapture\<close>.\<close>

fun captureAdjacent :: "nat list \<Rightarrow> int list \<Rightarrow> nat \<Rightarrow> capture list
    \<Rightarrow> nat list \<times> nat \<times> capture list" where
  "captureAdjacent b [] totalCaptured caps = (b, totalCaptured, caps)"
| "captureAdjacent b (adjPit # rest) totalCaptured caps =
     (if b ! nat adjPit > 0
      then captureAdjacent (b[nat adjPit := 0]) rest (totalCaptured + b ! nat adjPit)
             (caps @ [\<lparr> pit = adjPit, stones = b ! nat adjPit \<rparr>])
      else captureAdjacent b rest totalCaptured caps)"

definition checkCapture :: "game \<Rightarrow> int \<Rightarrow> game \<times> nat \<times> capture list" where
  "checkCapture g lastPit =
     (if \<not> isOwnPit g lastPit \<and> board g ! nat lastPit = 1
      then (case captureAdjacent (board g) (getAdjacentPits lastPit) 0 [] of
              (b, totalCaptured, caps) \<Rightarrow>
                if totalCaptured > 0
                then (g\<lparr>board := b[nat lastPit := 0]\<rparr>,
                      totalCaptured + b ! nat lastPit,
                      caps @ [\<lparr> pit = lastPit, stones = 1 \<rparr>])
                else (g\<lparr>board := b\<rparr>, totalCaptured, caps))
      else (g, 0, []))"

definition slice :: "nat \<Rightarrow> nat \<Rightarrow> 'a list \<Rightarrow> 'a list" where
  "slice i j xs = take (j - i) (drop i xs)"

definition sumStones :: "nat list \<Rightarrow> nat" where
  "sumStones xs = foldl (\<lambda>sum stones. sum + stones) 0 xs"

definition checkGameEnd :: "game \<Rightarrow> game" where
  "checkGameEnd g =
     (let playerSideEmpty = list_all (\<lambda>stones. stones = 0) (slice 0 7 (board g));
          aiSideEmpty = list_all (\<lambda>stones. stones = 0) (slice 7 14 (board g))
      in if playerSideEmpty \<or> aiSideEmpty
         then (let remainingPlayerStones = sumStones (slice 0 7 (board g));
                   remainingAiStones = sumStones (slice 7 14 (board g));
                   ps = playerScore g + remainingPlayerStones;
                   as = aiScore g + remainingAiStones
               in g\<lparr> gameOver := True, playerScore := ps, aiScore := as,
                     winner := Some (if ps > as then WinPlayer
                                     else if as > ps then WinAI else WinTie) \<rparr>)
         else g)"

text \<open>
  \<open>makeMove\<close> in four stages, in the order of the source: picking up and sowing
  (\<open>sowFrom\<close>), the capture step with the score update (\<open>applyCapture\<close>), the
  bonus-turn test, and the history entry followed by \<open>checkGameEnd\<close>.
\<close>

definition sowFrom :: "game \<Rightarrow> int \<Rightarrow> game \<times> int \<times> int list" where
  "sowFrom g pitIndex =
     (case sow ((board g)[nat pitIndex := 0]) pitIndex (board g ! nat pitIndex) [pitIndex] of
        (b, lastPit, pth) \<Rightarrow> (g\<lparr>board := b\<rparr>, lastPit, pth))"

definition applyCapture :: "game \<Rightarrow> int \<Rightarrow> game \<times> nat \<times> capture list" where
  "applyCapture g lastPit =
     (case checkCapture g lastPit of
        (g', captured, caps) \<Rightarrow>
          if captured > 0
          then ((if currentPlayer g' = Player
                 then g'\<lparr>playerScore := playerScore g' + captured\<rparr>
                 else g'\<lparr>aiScore := aiScore g' + captured\<rparr>), captured, caps)
          else (g', captured, []))"

definition earnsBonus :: "game \<Rightarrow> int \<Rightarrow> bool" where
  "earnsBonus g lastPit =
     (isOwnPit g lastPit \<and> board g ! nat lastPit mod 2 = 0 \<and> board g ! nat lastPit > 0)"

definition makeMove :: "game \<Rightarrow> int \<Rightarrow> game \<times> (error + moveResult)" where
  "makeMove g pitIndex =
     (if \<not> isValidMove g pitIndex then (g, Inl InvalidMove)
      else
        (case sowFrom g pitIndex of (g1, lastPit, pth) \<Rightarrow>
         case applyCapture g1 lastPit of (g2, captured, caps) \<Rightarrow>
           let bonus = earnsBonus g2 lastPit;
               g3 = (if bonus then g2 else g2\<lparr>currentPlayer := opponent (currentPlayer g2)\<rparr>);
               details = \<lparr> startPit = pitIndex, path = pth, captures = caps, bonusTurn = bonus \<rparr>;
               g4 = g3\<lparr>moveHistory := moveHistory g3 @
                      [\<lparr> h_player = opponent (currentPlayer g3), h_move = details,
                         h_boardState = board g3,
                         h_scores = (playerScore g3, aiScore g3) \<rparr>]\<rparr>;
               g5 = checkGameEnd g4
           in (g5, Inr \<lparr> r_moveDetails = details, r_captured = captured, r_bonusTurn = bonus,
                         r_gameOver = gameOver g5, r_winner = winner g5 \<rparr>)))"

definition getValidMoves :: "game \<Rightarrow> int list" where
  "getValidMoves g =
     (let start = (if currentPlayer g = Player then 0 else 7);
          end = (if currentPlayer g = Player then 6 else 13)
      in filter (\<lambda>i. board g ! nat i > 0) [start..end])"

definition simulateMove :: "game \<Rightarrow> int \<Rightarrow> game \<times> simulatedState" where
  "simulateMove g pitIndex =
     (case makeMove g pitIndex of
        (g', result) \<Rightarrow>
          (g'\<lparr> board := board g, playerScore := playerScore g, aiScore := aiScore g,
               currentPlayer := currentPlayer g, gameOver := gameOver g,
               winner := winner g \<rparr>,
           \<lparr> s_board = board g', s_playerScore = playerScore g', s_aiScore = aiScore g',
             s_currentPlayer = currentPlayer g', s_gameOver = gameOver g',
             s_winner = winner g', s_moveResult = result \<rparr>))"

text \<open>Playing a list of pits in turn, as repeated \<open>makeMove\<close> calls on one game object.\<close>

definition playMoves :: "game \<Rightarrow> int list \<Rightarrow> game" where
  "playMoves g ps = foldl (\<lambda>s p. fst (makeMove s p)) g ps"

inductive reachable :: "game \<Rightarrow> bool" where
  reach_init: "reachable initializeGame"
| reach_move: "reachable g \<Longrightarrow> reachable (fst (makeMove g p))"

section \<open>The decision engine (class PallanguzhiAI)\<close>

text \<open>
  Search scores are JavaScript numbers that start at \<open>-Infinity\<close> and \<open>Infinity\<close>;
  every evaluation is a whole number. \<open>xint\<close> is the integers with both infinities,
  ordered as JavaScript compares them.
\<close>

datatype xint = NegInf | Fin int | PosInf

instantiation xint :: linorder
begin

fun less_eq_xint :: "xint \<Rightarrow> xint \<Rightarrow> bool" where
  "less_eq_xint NegInf y = True"
| "less_eq_xint x PosInf = True"
| "less_eq_xint (Fin a) (Fin b) = (a \<le> b)"
| "less_eq_xint x y = False"

definition less_xint :: "xint \<Rightarrow> xint \<Rightarrow> bool" where
  "less_xint x y = (x \<le> y \<and> \<not> y \<le> x)"

instance
proof
  fix x y z :: xint
  show "(x < y) = (x \<le> y \<and> \<not> y \<le> x)"
    by (simp add: less_xint_def)
  show "x \<le> x"
    by (cases x) simp_all
  show "x \<le> y \<Longrightarrow> y \<le> z \<Longrightarrow> x \<le> z"
    by (cases x; cases y; cases z) simp_all
  show "x \<le> y \<Longrightarrow> y \<le> x \<Longrightarrow> x = y"
    by (cases x; cases y) simp_all
  show "x \<le> y \<or> y \<le> x"
    by (cases x; cases y) auto
qed

end

record searchResult =
  score :: xint
  move :: "int option"

text \<open>
  The functions of the AI class call \<open>game.simulateMove\<close> on the game they are given.
  That call hands back the game with every field restored except \<open>moveHistory\<close>
  (see \<open>simulateMove\<close>), and no function of the AI class reads \<open>moveHistory\<close>; the
  functions below therefore return their JavaScript return value only and take the
  second component of \<open>simulateMove\<close>.
\<close>

definition evaluateStrategicPositions :: "game \<Rightarrow> int" where
  "evaluateStrategicPositions g =
     (let s0 = 0 + int (board g ! 10) * 2;
          s1 = s0 - int (board g ! 3) * 2;
          s2 = s1 + (int (board g ! 7) + int (board g ! 13));
          s3 = s2 - (int (board g ! 0) + int (board g ! 6));
          s4 = foldl (\<lambda>s i. if board g ! nat i = 0 then s - 3 else s) s3 [7..13]
      in foldl (\<lambda>s i. if board g ! nat i = 0 then s + 3 else s) s4 [0..6])"

definition evaluateCaptureOpportunities :: "game \<Rightarrow> int" where
  "evaluateCaptureOpportunities g =
     foldl (\<lambda>s mv. case s_moveResult (snd (simulateMove g mv)) of
                      Inl e \<Rightarrow> s
                    | Inr r \<Rightarrow> if r_captured r > 0 then s + int (r_captured r) * 15 else s)
       0 (getValidMoves g)"

definition evaluatePosition :: "game \<Rightarrow> int" where
  "evaluatePosition g =
     (if gameOver g
      then (if winner g = Some WinAI then 1000
            else if winner g = Some WinPlayer then - 1000 else 0)
      else
        (let s1 = 0 + (int (aiScore g) - int (playerScore g)) * 10;
             aiStones = sumStones (slice 7 14 (board g));
             playerStones = sumStones (slice 0 7 (board g));
             s2 = s1 + (int aiStones - int playerStones) * 2;
             aiMoves = length (getValidMoves (g\<lparr>currentPlayer := AI\<rparr>));
             playerMoves = length (getValidMoves (g\<lparr>currentPlayer := Player\<rparr>));
             s3 = s2 + (int aiMoves - int playerMoves) * 5;
             s4 = s3 + evaluateStrategicPositions g
         in s4 + evaluateCaptureOpportunities g))"

text \<open>\<open>Object.assign(new PallanguzhiGame(), simulatedState)\<close>: a fresh game whose six
  state fields are overwritten by the simulated ones.\<close>

definition tempGameOf :: "simulatedState \<Rightarrow> game" where
  "tempGameOf s =
     initializeGame\<lparr> board := s_board s, playerScore := s_playerScore s,
                     aiScore := s_aiScore s, currentPlayer := s_currentPlayer s,
                     gameOver := s_gameOver s, winner := s_winner s \<rparr>"

text \<open>
  The two \<open>for\<close> loops of \<open>minimax\<close>, with \<open>break\<close> as the early return. The
  recursive call is the parameter \<open>rec\<close>, which receives the temporary game, the
  \<open>isMaximizing\<close> flag, alpha and beta.
\<close>

fun maxLoop :: "(game \<Rightarrow> bool \<Rightarrow> xint \<Rightarrow> xint \<Rightarrow> searchResult) \<Rightarrow> game \<Rightarrow> int list
    \<Rightarrow> xint \<Rightarrow> int option \<Rightarrow> xint \<Rightarrow> xint \<Rightarrow> searchResult" where
  "maxLoop rec g [] maxScore bestMove alpha beta = \<lparr> score = maxScore, move = bestMove \<rparr>"
| "maxLoop rec g (mv # rest) maxScore bestMove alpha beta =
     (let tempGame = tempGameOf (snd (simulateMove g mv));
          result = rec tempGame False alpha beta;
          maxScore' = (if score result > maxScore then score result else maxScore);
          bestMove' = (if score result > maxScore then Some mv else bestMove);
          alpha' = max alpha (score result)
      in if beta \<le> alpha' then \<lparr> score = maxScore', move = bestMove' \<rparr>
         else maxLoop rec g rest maxScore' bestMove' alpha' beta)"

fun minLoop :: "(game \<Rightarrow> bool \<Rightarrow> xint \<Rightarrow> xint \<Rightarrow> searchResult) \<Rightarrow> game \<Rightarrow> int list
    \<Rightarrow> xint \<Rightarrow> int option \<Rightarrow> xint \<Rightarrow> xint \<Rightarrow> searchResult" where
  "minLoop rec g [] minScore bestMove alpha beta = \<lparr> score = minScore, move = bestMove \<rparr>"
| "minLoop rec g (mv # rest) minScore bestMove alpha beta =
     (let tempGame = tempGameOf (snd (simulateMove g mv));
          result = rec tempGame True alpha beta;
          minScore' = (if score result < minScore then score result else minScore);
          bestMove' = (if score result < minScore then Some mv else bestMove);
          beta' = min beta (score result)
      in if beta' \<le> alpha then \<lparr> score = minScore', move = bestMove' \<rparr>
         else minLoop rec g rest minScore' bestMove' alpha beta')"

definition minimaxStep :: "(game \<Rightarrow> bool \<Rightarrow> xint \<Rightarrow> xint \<Rightarrow> searchResult) \<Rightarrow> game \<Rightarrow> bool
    \<Rightarrow> xint \<Rightarrow> xint \<Rightarrow> searchResult" where
  "minimaxStep rec g isMaximizing alpha beta =
     (let validMoves = getValidMoves g
      in if isMaximizing then maxLoop rec g validMoves NegInf None alpha beta
         else minLoop rec g validMoves PosInf None alpha beta)"

primrec minimax :: "nat \<Rightarrow> game \<Rightarrow> bool \<Rightarrow> xint \<Rightarrow> xint \<Rightarrow> searchResult" where
  "minimax 0 g isMaximizing alpha beta = \<lparr> score = Fin (evaluatePosition g), move = None \<rparr>"
| "minimax (Suc depth) g isMaximizing alpha beta =
     (if gameOver g then \<lparr> score = Fin (evaluatePosition g), move = None \<rparr>
      else minimaxStep (minimax depth) g isMaximizing alpha beta)"

section \<open>Vocabulary of the properties\<close>

subsection \<open>The intermediate values of one move\<close>

text \<open>
  The board after sowing, the last pit sown, the circular neighbours of a pit
  (index - 1 and index + 1, wrapping between 13 and 0), and the state that
  \<open>makeMove\<close> hands to \<open>checkGameEnd\<close> (\<open>preEndState\<close> repeats the body of
  \<open>makeMove\<close> up to the history entry).
\<close>

definition lastPitOf :: "game \<Rightarrow> int \<Rightarrow> int" where
  "lastPitOf g p = fst (snd (sowFrom g p))"

definition sownBoard :: "game \<Rightarrow> int \<Rightarrow> nat list" where
  "sownBoard g p = board (fst (sowFrom g p))"

definition leftOf :: "int \<Rightarrow> int" where
  "leftOf l = (l - 1) mod 14"

definition rightOf :: "int \<Rightarrow> int" where
  "rightOf l = (l + 1) mod 14"

definition captureTriggered :: "game \<Rightarrow> int \<Rightarrow> bool" where
  "captureTriggered g p =
     (\<not> isOwnPit g (lastPitOf g p) \<and> sownBoard g p ! nat (lastPitOf g p) = 1)"

definition preEndState :: "game \<Rightarrow> int \<Rightarrow> game" where
  "preEndState g pitIndex =
     (case sowFrom g pitIndex of (g1, lastPit, pth) \<Rightarrow>
      case applyCapture g1 lastPit of (g2, captured, caps) \<Rightarrow>
        let bonus = earnsBonus g2 lastPit;
            g3 = (if bonus then g2 else g2\<lparr>currentPlayer := opponent (currentPlayer g2)\<rparr>);
            details = \<lparr> startPit = pitIndex, path = pth, captures = caps, bonusTurn = bonus \<rparr>
        in g3\<lparr>moveHistory := moveHistory g3 @
              [\<lparr> h_player = opponent (currentPlayer g3), h_move = details,
                 h_boardState = board g3,
                 h_scores = (playerScore g3, aiScore g3) \<rparr>]\<rparr>)"

text \<open>Reading a move result: a failed move carries no capture and no bonus turn.\<close>

definition succeeded :: "error + moveResult \<Rightarrow> bool" where
  "succeeded res = (case res of Inl e \<Rightarrow> False | Inr r \<Rightarrow> True)"

definition capturedOf :: "error + moveResult \<Rightarrow> nat" where
  "capturedOf res = (case res of Inl e \<Rightarrow> 0 | Inr r \<Rightarrow> r_captured r)"

definition bonusOf :: "error + moveResult \<Rightarrow> bool" where
  "bonusOf res = (case res of Inl e \<Rightarrow> False | Inr r \<Rightarrow> r_bonusTurn r)"

text \<open>Scores and stones by side.\<close>

definition scoreOf :: "side \<Rightarrow> game \<Rightarrow> nat" where
  "scoreOf s g = (if s = Player then playerScore g else aiScore g)"

definition sideStones :: "side \<Rightarrow> nat list \<Rightarrow> nat list" where
  "sideStones s b = (if s = Player then slice 0 7 b else slice 7 14 b)"

definition sideEmpty :: "side \<Rightarrow> nat list \<Rightarrow> bool" where
  "sideEmpty s b = list_all (\<lambda>stones. stones = 0) (sideStones s b)"

definition finalWinner :: "nat \<Rightarrow> nat \<Rightarrow> winner_t" where
  "finalWinner ps as = (if ps > as then WinPlayer else if as > ps then WinAI else WinTie)"

definition totalStones :: "game \<Rightarrow> nat" where
  "totalStones g = sum_list (board g) + playerScore g + aiScore g"

definition conserved :: "game \<Rightarrow> bool" where
  "conserved g = (if gameOver g then playerScore g + aiScore g = 96 else totalStones g = 96)"

subsection \<open>Exhaustive search\<close>

text \<open>
  The reference search of the specification, "exhaustive minimax without pruning":
  the loops of \<open>minimax\<close> with alpha, beta and the \<open>break\<close> taken out, and the same
  update of the best move (only a strictly better score replaces it, so the first
  best-scoring move in ascending pit order is kept).
\<close>

fun fullMaxLoop :: "(game \<Rightarrow> bool \<Rightarrow> searchResult) \<Rightarrow> game \<Rightarrow> int list
    \<Rightarrow> xint \<Rightarrow> int option \<Rightarrow> searchResult" where
  "fullMaxLoop rec g [] maxScore bestMove = \<lparr> score = maxScore, move = bestMove \<rparr>"
| "fullMaxLoop rec g (mv # rest) maxScore bestMove =
     (let tempGame = tempGameOf (snd (simulateMove g mv));
          result = rec tempGame False;
          maxScore' = (if score result > maxScore then score result else maxScore);
          bestMove' = (if score result > maxScore then Some mv else bestMove)
      in fullMaxLoop rec g rest maxScore' bestMove')"

fun fullMinLoop :: "(game \<Rightarrow> bool \<Rightarrow> searchResult) \<Rightarrow> game \<Rightarrow> int list
    \<Rightarrow> xint \<Rightarrow> int option \<Rightarrow> searchResult" where
  "fullMinLoop rec g [] minScore bestMove = \<lparr> score = minScore, move = bestMove \<rparr>"
| "fullMinLoop rec g (mv # rest) minScore bestMove =
     (let tempGame = tempGameOf (snd (simulateMove g mv));
          result = rec tempGame True;
          minScore' = (if score result < minScore then score result else minScore);
          bestMove' = (if score result < minScore then Some mv else bestMove)
      in fullMinLoop rec g rest minScore' bestMove')"

primrec minimaxFull :: "nat \<Rightarrow> game \<Rightarrow> bool \<Rightarrow> searchResult" where
  "minimaxFull 0 g isMaximizing = \<lparr> score = Fin (evaluatePosition g), move = None \<rparr>"
| "minimaxFull (Suc depth) g isMaximizing =
     (if gameOver g then \<lparr> score = Fin (evaluatePosition g), move = None \<rparr>
      else if isMaximizing
           then fullMaxLoop (minimaxFull depth) g (getValidMoves g) NegInf None
           else fullMinLoop (minimaxFull depth) g (getValidMoves g) PosInf None)"

text \<open>
  What a search with window \<open>(lo, hi)\<close> may return for a position of exact value
  \<open>v\<close>: the exact value inside the window, a bound on the right side outside it.
\<close>

definition windowExact :: "xint \<Rightarrow> xint \<Rightarrow> xint \<Rightarrow> xint \<Rightarrow> bool" where
  "windowExact lo hi v r = ((r \<le> lo \<longrightarrow> v \<le> r) \<and> (lo < r \<and> r < hi \<longrightarrow> r = v) \<and> (hi \<le> r \<longrightarrow> r \<le> v))"

subsection \<open>The role passed down the recursion\<close>

text \<open>
  \<open>roleOfTurn\<close> is the role that belongs to the side to move (the AI maximizes).
  \<open>byTurn rec\<close> answers every recursive call with the role of the child's turn,
  as the specification asks; \<open>flipped isMaximizing rec\<close> answers it with the opposite
  of the caller's role. \<open>roleProbe\<close> is a stand-in for the recursive call that
  returns the role it was called with (1 for maximizing, 0 for minimizing).
  \<open>minimaxByTurn\<close> is the search of the specification's note: \<open>minimax\<close> with the
  role of every ply below the root taken from the turn of the child state.
\<close>

definition roleOfTurn :: "game \<Rightarrow> bool" where
  "roleOfTurn g = (currentPlayer g = AI)"

definition byTurn :: "(game \<Rightarrow> bool \<Rightarrow> xint \<Rightarrow> xint \<Rightarrow> searchResult)
    \<Rightarrow> game \<Rightarrow> bool \<Rightarrow> xint \<Rightarrow> xint \<Rightarrow> searchResult" where
  "byTurn rec h r = rec h (roleOfTurn h)"

definition flipped :: "bool \<Rightarrow> (game \<Rightarrow> bool \<Rightarrow> xint \<Rightarrow> xint \<Rightarrow> searchResult)
    \<Rightarrow> game \<Rightarrow> bool \<Rightarrow> xint \<Rightarrow> xint \<Rightarrow> searchResult" where
  "flipped isMaximizing rec h r = rec h (\<not> isMaximizing)"

definition roleProbe :: "game \<Rightarrow> bool \<Rightarrow> xint \<Rightarrow> xint \<Rightarrow> searchResult" where
  "roleProbe h r alpha beta = \<lparr> score = Fin (if r then 1 else 0), move = None \<rparr>"

primrec minimaxByTurn :: "nat \<Rightarrow> game \<Rightarrow> bool \<Rightarrow> xint \<Rightarrow> xint \<Rightarrow> searchResult" where
  "minimaxByTurn 0 g isMaximizing alpha beta = \<lparr> score = Fin (evaluatePosition g), move = None \<rparr>"
| "minimaxByTurn (Suc depth) g isMaximizing alpha beta =
     (if gameOver g then \<lparr> score = Fin (evaluatePosition g), move = None \<rparr>
      else minimaxStep (byTurn (minimaxByTurn depth)) g isMaximizing alpha beta)"

subsection \<open>The terms of the evaluator\<close>

text \<open>
  \<open>staticTerms\<close> is the sum of the score, stone, mobility and strategic terms of
  \<open>evaluatePosition\<close>. \<open>captureTermFor s\<close> follows the specification's words: for
  every legal move of side \<open>s\<close>, 15 times the stones that move would capture when
  \<open>s\<close> plays it.
\<close>

definition staticTerms :: "game \<Rightarrow> int" where
  "staticTerms g =
     (int (aiScore g) - int (playerScore g)) * 10
     + (int (sumStones (slice 7 14 (board g))) - int (sumStones (slice 0 7 (board g)))) * 2
     + (int (length (getValidMoves (g\<lparr>currentPlayer := AI\<rparr>)))
          - int (length (getValidMoves (g\<lparr>currentPlayer := Player\<rparr>)))) * 5
     + evaluateStrategicPositions g"

definition captureTermFor :: "side \<Rightarrow> game \<Rightarrow> int" where
  "captureTermFor s g =
     sum_list (map (\<lambda>mv. 15 * int (capturedOf (snd (makeMove (g\<lparr>currentPlayer := s\<rparr>) mv))))
                   (getValidMoves (g\<lparr>currentPlayer := s\<rparr>)))"

subsection \<open>Positions of real games\<close>

text \<open>
  \<open>shortGame\<close> is a complete game of eight moves and \<open>nearEnd\<close> the position before
  its last move, \<open>midGame\<close> the position after its first three moves (the AI to
  move); \<open>afterFirst\<close> is the position after the opening move from pit 2
  (the AI to move), \<open>afterCapture\<close> the position after the moves 0 and 8 (the player
  to move).
\<close>

definition shortGame :: "int list" where
  "shortGame = [4, 12, 1, 7, 3, 4, 12, 5]"

definition nearEnd :: game where
  "nearEnd = playMoves initializeGame [4, 12, 1, 7, 3, 4, 12]"

definition midGame :: game where
  "midGame = playMoves initializeGame [4, 12, 1]"

definition afterFirst :: game where
  "afterFirst = playMoves initializeGame [2]"

definition afterCapture :: game where
  "afterCapture = playMoves initializeGame [0, 8]"

section \<open>Sowing, capturing and the shape of a move\<close>

text \<open>
  Sowing keeps the board at 14 pits, ends in a pit between 0 and 13 and adds the
  stones in hand to the board; capturing moves stones from the board into the count
  it returns. A legal move is \<open>checkGameEnd\<close> applied to \<open>preEndState\<close>.
\<close>

lemma getNextPit_range: "0 \<le> c \<Longrightarrow> c \<le> 13 \<Longrightarrow> 0 \<le> getNextPit c \<and> getNextPit c \<le> 13"
  by (simp add: getNextPit_def)

lemma sow_length: "length (fst (sow b c n pth)) = length b"
  by (induction b c n pth rule: sow.induct) (simp_all add: Let_def)

lemma sow_last_range:
  "0 \<le> c \<Longrightarrow> c \<le> 13 \<Longrightarrow> 0 \<le> fst (snd (sow b c n pth)) \<and> fst (snd (sow b c n pth)) \<le> 13"
proof (induction b c n pth rule: sow.induct)
  case (1 b c pth)
  then show ?case by simp
next
  case (2 b c n pth)
  from getNextPit_range[OF "2.prems"] "2.IH"[OF refl] show ?case
    by (simp add: Let_def)
qed

lemma sum_list_bump:
  "i < length b \<Longrightarrow> sum_list (b[i := b ! i + k]) = sum_list b + (k::nat)"
  by (induction b arbitrary: i) (auto split: nat.splits)

lemma sum_list_zero:
  "i < length b \<Longrightarrow> sum_list (b[i := 0]) + b ! i = sum_list (b::nat list)"
  by (induction b arbitrary: i) (auto split: nat.splits)

lemma sow_sum:
  "0 \<le> c \<Longrightarrow> c \<le> 13 \<Longrightarrow> length b = 14 \<Longrightarrow> sum_list (fst (sow b c n pth)) = sum_list b + n"
proof (induction b c n pth rule: sow.induct)
  case (1 b c pth)
  then show ?case by simp
next
  case (2 b c n pth)
  let ?nx = "getNextPit c"
  from getNextPit_range[OF "2.prems"(1,2)] have r: "0 \<le> ?nx" "?nx \<le> 13" by simp_all
  then have lt: "nat ?nx < length b" using "2.prems"(3) by simp
  have "sum_list (fst (sow (b[nat ?nx := b ! nat ?nx + 1]) ?nx n (pth @ [?nx])))
        = sum_list (b[nat ?nx := b ! nat ?nx + 1]) + n"
    using "2.IH"[OF refl r] "2.prems"(3) by simp
  then show ?case using sum_list_bump[OF lt, of 1] by (simp add: Let_def)
qed

lemma captureAdjacent_length: "length (fst (captureAdjacent b as t cs)) = length b"
  by (induction b as t cs rule: captureAdjacent.induct) simp_all

lemma captureAdjacent_sum:
  "\<forall>a \<in> set as. nat a < length b \<Longrightarrow>
   sum_list (fst (captureAdjacent b as t cs)) + fst (snd (captureAdjacent b as t cs)) = sum_list b + t"
proof (induction b as t cs rule: captureAdjacent.induct)
  case (1 b t cs)
  then show ?case by simp
next
  case (2 b a rest t cs)
  then have lt: "nat a < length b" by simp
  show ?case
  proof (cases "b ! nat a > 0")
    case True
    with 2 have "sum_list (fst (captureAdjacent (b[nat a := 0]) rest (t + b ! nat a) (cs @ [\<lparr>pit = a, stones = b ! nat a\<rparr>])))
      + fst (snd (captureAdjacent (b[nat a := 0]) rest (t + b ! nat a) (cs @ [\<lparr>pit = a, stones = b ! nat a\<rparr>])))
      = sum_list (b[nat a := 0]) + (t + b ! nat a)" by simp
    with True sum_list_zero[OF lt] show ?thesis by simp
  next
    case False
    with 2 show ?thesis by simp
  qed
qed

lemma captureAdjacent_total_ge: "t \<le> fst (snd (captureAdjacent b as t cs))"
  by (induction b as t cs rule: captureAdjacent.induct) (auto simp: le_trans[OF le_add1])

lemma sumStones_sum_list: "sumStones xs = sum_list xs"
proof -
  have "foldl (\<lambda>sum stones. sum + stones) a xs = a + sum_list xs" for a :: nat
    by (induction xs arbitrary: a) simp_all
  then show ?thesis by (simp add: sumStones_def)
qed

lemma sides_sum: "sum_list (slice 0 7 b) + sum_list (slice 7 14 b) = sum_list (take 14 b)" for b :: "nat list"
proof -
  have "take 14 b = take 7 b @ take 7 (drop 7 b)"
    using take_add[of 7 7 b] by simp
  then show ?thesis by (simp add: slice_def)
qed

lemma makeMove_invalid: "\<not> isValidMove g p \<Longrightarrow> makeMove g p = (g, Inl InvalidMove)"
  by (simp add: makeMove_def)

lemma isValidMove_iff:
  "isValidMove g p \<longleftrightarrow> \<not> gameOver g \<and> isOwnPit g p \<and> 0 < board g ! nat p"
  by (cases "currentPlayer g") (auto simp: isValidMove_def isOwnPit_def)

lemma sowFrom_eq: "sowFrom g p = (g\<lparr>board := sownBoard g p\<rparr>, lastPitOf g p, snd (snd (sowFrom g p)))"
  by (simp add: sowFrom_def sownBoard_def lastPitOf_def split_beta)

lemma checkCapture_shape:
  obtains b c cs where "checkCapture g l = (g\<lparr>board := b\<rparr>, c, cs)"
proof (cases "\<not> isOwnPit g l \<and> board g ! nat l = 1")
  case True
  obtain b t cs where ca: "captureAdjacent (board g) (getAdjacentPits l) 0 [] = (b, t, cs)"
    by (cases "captureAdjacent (board g) (getAdjacentPits l) 0 []")
  show thesis
  proof (cases "t > 0")
    case True
    with \<open>\<not> isOwnPit g l \<and> board g ! nat l = 1\<close> ca that[of "b[nat l := 0]"] show thesis
      by (simp add: checkCapture_def)
  next
    case False
    with \<open>\<not> isOwnPit g l \<and> board g ! nat l = 1\<close> ca that[of b] show thesis
      by (simp add: checkCapture_def)
  qed
next
  case False
  then have "checkCapture g l = (g, 0, [])"
    by (auto simp: checkCapture_def)
  then have "checkCapture g l = (g\<lparr>board := board g\<rparr>, 0, [])"
    by simp
  then show thesis by (rule that)
qed

lemma earnsBonus_cong:
  "currentPlayer g' = currentPlayer g \<Longrightarrow> board g' = board g \<Longrightarrow> earnsBonus g' l = earnsBonus g l"
  by (simp add: earnsBonus_def isOwnPit_def)

lemma makeMove_valid:
  assumes "isValidMove g p"
  shows "fst (makeMove g p) = checkGameEnd (preEndState g p)"
    and "succeeded (snd (makeMove g p))"
    and "capturedOf (snd (makeMove g p)) =
           fst (snd (checkCapture (g\<lparr>board := sownBoard g p\<rparr>) (lastPitOf g p)))"
    and "bonusOf (snd (makeMove g p)) =
           earnsBonus (fst (checkCapture (g\<lparr>board := sownBoard g p\<rparr>) (lastPitOf g p))) (lastPitOf g p)"
proof -
  obtain b c cs where cc:
    "checkCapture (g\<lparr>board := sownBoard g p\<rparr>) (lastPitOf g p) = (g\<lparr>board := sownBoard g p, board := b\<rparr>, c, cs)"
    by (rule checkCapture_shape)
  have eb: "earnsBonus (fst (applyCapture (g\<lparr>board := sownBoard g p\<rparr>) (lastPitOf g p))) (lastPitOf g p)
            = earnsBonus (g\<lparr>board := b\<rparr>) (lastPitOf g p)"
    by (rule earnsBonus_cong) (simp_all add: applyCapture_def cc)
  have c2: "fst (snd (applyCapture (g\<lparr>board := sownBoard g p\<rparr>) (lastPitOf g p))) = c"
    using cc by (simp add: applyCapture_def)
  show "fst (makeMove g p) = checkGameEnd (preEndState g p)"
    using assms by (simp add: makeMove_def preEndState_def split_beta Let_def)
  show "succeeded (snd (makeMove g p))"
    using assms by (simp add: makeMove_def split_beta Let_def succeeded_def)
  show "capturedOf (snd (makeMove g p)) =
           fst (snd (checkCapture (g\<lparr>board := sownBoard g p\<rparr>) (lastPitOf g p)))"
    using assms by (subst makeMove_def, subst sowFrom_eq) (simp add: split_beta Let_def capturedOf_def c2 cc)
  show "bonusOf (snd (makeMove g p)) =
           earnsBonus (fst (checkCapture (g\<lparr>board := sownBoard g p\<rparr>) (lastPitOf g p))) (lastPitOf g p)"
    using assms by (subst makeMove_def, subst sowFrom_eq) (simp add: split_beta Let_def bonusOf_def eb cc)
qed

lemma preEndState_eq:
  obtains b c h where
    "checkCapture (g\<lparr>board := sownBoard g p\<rparr>) (lastPitOf g p) = (g\<lparr>board := b\<rparr>, c, h)"
    "preEndState g p =
       g\<lparr>board := b,
          playerScore := playerScore g + (if currentPlayer g = Player then c else 0),
          aiScore := aiScore g + (if currentPlayer g = Player then 0 else c),
          currentPlayer := (if earnsBonus (g\<lparr>board := b\<rparr>) (lastPitOf g p)
                            then currentPlayer g else opponent (currentPlayer g)),
          moveHistory := moveHistory (preEndState g p)\<rparr>"
proof -
  obtain b c cs where cc:
    "checkCapture (g\<lparr>board := sownBoard g p\<rparr>) (lastPitOf g p) = (g\<lparr>board := sownBoard g p, board := b\<rparr>, c, cs)"
    by (rule checkCapture_shape)
  let ?g2 = "fst (applyCapture (g\<lparr>board := sownBoard g p\<rparr>) (lastPitOf g p))"
  have g2: "?g2 = g\<lparr>board := b,
          playerScore := playerScore g + (if currentPlayer g = Player then c else 0),
          aiScore := aiScore g + (if currentPlayer g = Player then 0 else c)\<rparr>"
    using cc by (simp add: applyCapture_def)
  have eb: "earnsBonus ?g2 (lastPitOf g p) = earnsBonus (g\<lparr>board := b\<rparr>) (lastPitOf g p)"
    by (rule earnsBonus_cong) (simp_all add: g2)
  have pe: "preEndState g p =
     (let g3 = (if earnsBonus (g\<lparr>board := b\<rparr>) (lastPitOf g p) then ?g2
                else ?g2\<lparr>currentPlayer := opponent (currentPlayer ?g2)\<rparr>)
      in g3\<lparr>moveHistory := moveHistory g3 @
              [\<lparr> h_player = opponent (currentPlayer g3),
                 h_move = \<lparr> startPit = p, path = snd (snd (sowFrom g p)),
                            captures = snd (snd (applyCapture (g\<lparr>board := sownBoard g p\<rparr>) (lastPitOf g p))),
                            bonusTurn = earnsBonus (g\<lparr>board := b\<rparr>) (lastPitOf g p) \<rparr>,
                 h_boardState = board g3,
                 h_scores = (playerScore g3, aiScore g3) \<rparr>]\<rparr>)"
    by (subst preEndState_def, subst sowFrom_eq) (simp add: split_beta Let_def eb)
  show thesis
  proof (rule that)
    show "checkCapture (g\<lparr>board := sownBoard g p\<rparr>) (lastPitOf g p) = (g\<lparr>board := b\<rparr>, c, cs)"
      using cc by simp
    show "preEndState g p =
       g\<lparr>board := b,
          playerScore := playerScore g + (if currentPlayer g = Player then c else 0),
          aiScore := aiScore g + (if currentPlayer g = Player then 0 else c),
          currentPlayer := (if earnsBonus (g\<lparr>board := b\<rparr>) (lastPitOf g p)
                            then currentPlayer g else opponent (currentPlayer g)),
          moveHistory := moveHistory (preEndState g p)\<rparr>"
      by (simp add: pe Let_def g2)
  qed
qed

lemma preEndState_history:
  "\<exists>e. moveHistory (preEndState g p) = moveHistory g @ [e]"
proof -
  obtain b c cs where cc:
    "checkCapture (g\<lparr>board := sownBoard g p\<rparr>) (lastPitOf g p) = (g\<lparr>board := sownBoard g p, board := b\<rparr>, c, cs)"
    by (rule checkCapture_shape)
  show ?thesis
    by (subst preEndState_def, subst sowFrom_eq) (simp add: split_beta Let_def applyCapture_def cc)
qed

lemma checkGameEnd_frame:
  "board (checkGameEnd g) = board g" "currentPlayer (checkGameEnd g) = currentPlayer g"
  "moveHistory (checkGameEnd g) = moveHistory g"
  by (simp_all add: checkGameEnd_def Let_def)

lemma checkCapture_pos: "0 < fst (snd (checkCapture g l)) \<Longrightarrow> \<not> isOwnPit g l"
  by (auto simp: checkCapture_def split: if_splits)

lemma nat_lt_14: "0 \<le> p \<Longrightarrow> p \<le> 13 \<Longrightarrow> nat p < 14"
  by arith

lemma valid_pit_range: "isValidMove g p \<Longrightarrow> 0 \<le> p \<and> p \<le> 13"
  by (cases "currentPlayer g") (auto simp: isValidMove_def split: if_splits)

lemma sownBoard_length: "length (sownBoard g p) = length (board g)"
  using sow_length[of "(board g)[nat p := 0]" p "board g ! nat p" "[p]"]
  by (simp add: sownBoard_def sowFrom_def split_beta)

lemma lastPitOf_range: "isValidMove g p \<Longrightarrow> 0 \<le> lastPitOf g p \<and> lastPitOf g p \<le> 13"
  using sow_last_range[of p "(board g)[nat p := 0]" "board g ! nat p" "[p]"] valid_pit_range[of g p]
  by (simp add: lastPitOf_def sowFrom_def split_beta)

lemma sownBoard_sum:
  assumes "isValidMove g p" "length (board g) = 14"
  shows "sum_list (sownBoard g p) = sum_list (board g)"
proof -
  from valid_pit_range[OF assms(1)] assms(2) have lt: "nat p < length (board g)"
    by (simp add: nat_lt_14)
  have "sum_list (sownBoard g p) = sum_list ((board g)[nat p := 0]) + board g ! nat p"
    using sow_sum[of p "(board g)[nat p := 0]" "board g ! nat p" "[p]"] valid_pit_range[OF assms(1)] assms(2)
    by (simp add: sownBoard_def sowFrom_def split_beta)
  with sum_list_zero[OF lt] show ?thesis by simp
qed

lemma adjacent_pits_in_range:
  "0 \<le> l \<Longrightarrow> l \<le> 13 \<Longrightarrow> \<forall>a \<in> set (getAdjacentPits l). 0 \<le> a \<and> a \<le> 13"
  by (auto simp: getAdjacentPits_def)

lemma checkCapture_sum:
  assumes "0 \<le> l" "l \<le> 13" "length (board g) = 14"
  shows "sum_list (board (fst (checkCapture g l))) + fst (snd (checkCapture g l)) = sum_list (board g)
         \<and> length (board (fst (checkCapture g l))) = 14"
proof (cases "\<not> isOwnPit g l \<and> board g ! nat l = 1")
  case False
  then have "checkCapture g l = (g, 0, [])" by (auto simp: checkCapture_def)
  with assms show ?thesis by simp
next
  case True
  obtain b t cs where ca: "captureAdjacent (board g) (getAdjacentPits l) 0 [] = (b, t, cs)"
    by (cases "captureAdjacent (board g) (getAdjacentPits l) 0 []")
  have "\<forall>a \<in> set (getAdjacentPits l). nat a < length (board g)"
    using adjacent_pits_in_range[OF assms(1,2)] assms(3) by (auto simp: nat_lt_14)
  from captureAdjacent_sum[OF this, of 0 "[]"] ca have s: "sum_list b + t = sum_list (board g)" by simp
  from captureAdjacent_length[of "board g" "getAdjacentPits l" 0 "[]"] ca assms(3)
  have len: "length b = 14" by simp
  then have "nat l < length b" using assms by (simp add: nat_lt_14)
  from sum_list_zero[OF this] s have "sum_list (b[nat l := 0]) + (t + b ! nat l) = sum_list (board g)"
    by simp
  with True ca s len show ?thesis by (simp add: checkCapture_def)
qed

text \<open>
  Claim C6 (illegal-move atomicity). \<open>isValidMove\<close> is false exactly when the game is
  over, the pit is not on the mover's side, or the pit holds no stone; and for every
  pit index for which it is false, \<open>makeMove\<close> returns the failure result and the
  game it returns is the game it was given, field for field.
\<close>

theorem illegal_move_is_rejected:
  "(isValidMove g p \<longleftrightarrow> \<not> gameOver g \<and> isOwnPit g p \<and> 0 < board g ! nat p)
   \<and> (\<not> isValidMove g p \<longrightarrow> makeMove g p = (g, Inl InvalidMove))"
  using isValidMove_iff[of g p] makeMove_invalid[of g p] by simp

theorem illegal_move_is_rejected_witness:
  "\<not> isValidMove initializeGame 9 \<and> makeMove initializeGame 9 = (initializeGame, Inl InvalidMove)"
  using illegal_move_is_rejected[of initializeGame 9]
  by (simp add: isOwnPit_def initializeGame_def)

text \<open>
  Claim C8 (bonus-turn rule). For every legal move the turn stays with the mover if
  and only if the last sown pit is on the mover's own side and its count on the board
  after the capture step (which is the board of the returned state) is even and not
  zero; otherwise the turn goes to the opponent. The \<open>bonusTurn\<close> flag of the result
  says the same.
\<close>

theorem bonus_turn_rule:
  assumes "isValidMove g p"
  shows "currentPlayer (fst (makeMove g p)) =
           (if isOwnPit g (lastPitOf g p)
               \<and> even (board (fst (makeMove g p)) ! nat (lastPitOf g p))
               \<and> board (fst (makeMove g p)) ! nat (lastPitOf g p) \<noteq> 0
            then currentPlayer g else opponent (currentPlayer g))
         \<and> bonusOf (snd (makeMove g p)) = (currentPlayer (fst (makeMove g p)) = currentPlayer g)"
proof -
  obtain b c cs where
    cc: "checkCapture (g\<lparr>board := sownBoard g p\<rparr>) (lastPitOf g p) = (g\<lparr>board := b\<rparr>, c, cs)"
    and pe: "preEndState g p =
       g\<lparr>board := b,
          playerScore := playerScore g + (if currentPlayer g = Player then c else 0),
          aiScore := aiScore g + (if currentPlayer g = Player then 0 else c),
          currentPlayer := (if earnsBonus (g\<lparr>board := b\<rparr>) (lastPitOf g p)
                            then currentPlayer g else opponent (currentPlayer g)),
          moveHistory := moveHistory (preEndState g p)\<rparr>"
    by (rule preEndState_eq)
  have cp: "currentPlayer (preEndState g p) = (if earnsBonus (g\<lparr>board := b\<rparr>) (lastPitOf g p)
                            then currentPlayer g else opponent (currentPlayer g))"
    by (subst pe) simp
  have bd: "board (preEndState g p) = b"
    by (subst pe) simp
  have opp: "opponent (currentPlayer g) \<noteq> currentPlayer g"
    by (simp add: opponent_def)
  have eb: "earnsBonus (g\<lparr>board := b\<rparr>) (lastPitOf g p) =
          (isOwnPit g (lastPitOf g p) \<and> even (b ! nat (lastPitOf g p)) \<and> b ! nat (lastPitOf g p) \<noteq> 0)"
    by (auto simp: earnsBonus_def isOwnPit_def)
  show ?thesis
    using opp by (simp add: makeMove_valid[OF assms] checkGameEnd_frame cp bd cc eb)
qed

theorem bonus_turn_rule_witness:
  "isValidMove afterFirst 10 \<and> lastPitOf afterFirst 10 = 8 \<and> isOwnPit afterFirst 8
   \<and> board (fst (makeMove afterFirst 10)) ! 8 = 8
   \<and> currentPlayer (fst (makeMove afterFirst 10)) = currentPlayer afterFirst
   \<and> bonusOf (snd (makeMove afterFirst 10))"
proof -
  have v: "isValidMove afterFirst 10" by code_simp
  have l: "lastPitOf afterFirst 10 = 8" by code_simp
  have o: "isOwnPit afterFirst 8" by code_simp
  have b: "board (fst (makeMove afterFirst 10)) ! 8 = 8" by code_simp
  from bonus_turn_rule[OF v] show ?thesis
    by (simp add: v l o b)
qed

text \<open>
  Claim C10 (capture and bonus turn exclude each other). No call of \<open>makeMove\<close>
  returns a result with both a positive number of captured stones and the bonus-turn
  flag: a capture needs the last pit on the opponent's side, a bonus turn needs it on
  the mover's own side.
\<close>

theorem capture_excludes_bonus:
  "\<not> (0 < capturedOf (snd (makeMove g p)) \<and> bonusOf (snd (makeMove g p)))"
proof (cases "isValidMove g p")
  case False
  then show ?thesis by (simp add: makeMove_invalid capturedOf_def)
next
  case True
  obtain b c cs where
    cc: "checkCapture (g\<lparr>board := sownBoard g p\<rparr>) (lastPitOf g p) = (g\<lparr>board := b\<rparr>, c, cs)"
    by (rule checkCapture_shape[of "g\<lparr>board := sownBoard g p\<rparr>" "lastPitOf g p"]) simp
  show ?thesis
  proof
    assume a: "0 < capturedOf (snd (makeMove g p)) \<and> bonusOf (snd (makeMove g p))"
    with cc have "\<not> isOwnPit (g\<lparr>board := sownBoard g p\<rparr>) (lastPitOf g p)"
      using checkCapture_pos[of "g\<lparr>board := sownBoard g p\<rparr>" "lastPitOf g p"]
      by (simp add: makeMove_valid[OF True])
    moreover from a cc have "isOwnPit (g\<lparr>board := b\<rparr>) (lastPitOf g p)"
      by (simp add: makeMove_valid[OF True] earnsBonus_def)
    ultimately show False by (simp add: isOwnPit_def)
  qed
qed

theorem capture_excludes_bonus_witness:
  "capturedOf (snd (makeMove nearEnd 5)) = 20 \<and> \<not> bonusOf (snd (makeMove nearEnd 5))"
proof -
  have c: "capturedOf (snd (makeMove nearEnd 5)) = 20" by code_simp
  with capture_excludes_bonus[of nearEnd 5] show ?thesis by simp
qed

lemma leftOf_eq: "0 \<le> l \<Longrightarrow> l \<le> 13 \<Longrightarrow> leftOf l = (if l = 0 then 13 else l - 1)"
  by (simp add: leftOf_def)

lemma rightOf_eq: "0 \<le> l \<Longrightarrow> l \<le> 13 \<Longrightarrow> rightOf l = (if l = 13 then 0 else l + 1)"
  by (simp add: rightOf_def)

lemma zero_update_id: "b ! i = 0 \<Longrightarrow> b[i := 0] = (b::nat list)"
  by (metis list_update_id)

lemma captureAdjacent_two:
  assumes "nat i \<noteq> nat j"
  shows "fst (captureAdjacent b [i, j] 0 []) = b[nat i := 0, nat j := 0]"
    and "fst (snd (captureAdjacent b [i, j] 0 [])) = b ! nat i + b ! nat j"
proof -
  have nj: "(b[nat i := 0]) ! nat j = b ! nat j"
    using assms by simp
  show "fst (captureAdjacent b [i, j] 0 []) = b[nat i := 0, nat j := 0]"
    using nj by (cases "b ! nat i = 0"; cases "b ! nat j = 0") (simp_all add: zero_update_id)
  show "fst (snd (captureAdjacent b [i, j] 0 [])) = b ! nat i + b ! nat j"
    using nj by (cases "b ! nat i = 0"; cases "b ! nat j = 0") simp_all
qed

lemma captureAdjacent_neighbours:
  assumes "0 \<le> l" "l \<le> 13"
  shows "fst (captureAdjacent b (getAdjacentPits l) 0 []) = b[nat (leftOf l) := 0, nat (rightOf l) := 0]"
    and "fst (snd (captureAdjacent b (getAdjacentPits l) 0 [])) = b ! nat (leftOf l) + b ! nat (rightOf l)"
proof -
  consider "l = 0" | "l = 13" | "0 < l" "l < 13" using assms by linarith
  then have "fst (captureAdjacent b (getAdjacentPits l) 0 []) = b[nat (leftOf l) := 0, nat (rightOf l) := 0]
     \<and> fst (snd (captureAdjacent b (getAdjacentPits l) 0 [])) = b ! nat (leftOf l) + b ! nat (rightOf l)"
  proof cases
    case 1
    have "getAdjacentPits l = [1, 13]" using 1 by (simp add: getAdjacentPits_def)
    moreover have "leftOf l = 13" "rightOf l = 1" using 1 by (simp_all add: leftOf_def rightOf_def)
    moreover have "b[nat 1 := 0, nat 13 := 0] = b[nat 13 := 0, nat 1 := 0]"
      by (rule list_update_swap) simp
    ultimately show ?thesis
      using captureAdjacent_two[of 1 13 b] by simp
  next
    case 2
    have "getAdjacentPits l = [12, 0]" using 2 by (simp add: getAdjacentPits_def)
    moreover have "leftOf l = 12" "rightOf l = 0" using 2 by (simp_all add: leftOf_def rightOf_def)
    ultimately show ?thesis
      using captureAdjacent_two[of 12 0 b] by simp
  next
    case 3
    have "getAdjacentPits l = [l - 1, l + 1]" using 3 by (simp add: getAdjacentPits_def)
    moreover have "leftOf l = l - 1" "rightOf l = l + 1" using 3 by (simp_all add: leftOf_def rightOf_def)
    moreover have "nat (l - 1) \<noteq> nat (l + 1)" using 3 by arith
    ultimately show ?thesis
      using captureAdjacent_two[of "l - 1" "l + 1" b] by simp
  qed
  then show "fst (captureAdjacent b (getAdjacentPits l) 0 []) = b[nat (leftOf l) := 0, nat (rightOf l) := 0]"
    and "fst (snd (captureAdjacent b (getAdjacentPits l) 0 [])) = b ! nat (leftOf l) + b ! nat (rightOf l)"
    by simp_all
qed

lemma neighbours_distinct:
  assumes "0 \<le> l" "l \<le> 13"
  shows "nat (leftOf l) \<noteq> nat l" "nat (rightOf l) \<noteq> nat l"
  using assms by (auto simp: leftOf_eq rightOf_eq)

lemma checkCapture_explicit:
  assumes "0 \<le> l" "l \<le> 13"
  defines "lf \<equiv> nat (leftOf l)" and "rt \<equiv> nat (rightOf l)"
  shows "checkCapture g l =
     (if \<not> isOwnPit g l \<and> board g ! nat l = 1 \<and> 0 < board g ! lf + board g ! rt
      then (g\<lparr>board := (board g)[lf := 0, rt := 0, nat l := 0]\<rparr>,
            board g ! lf + board g ! rt + 1, snd (snd (checkCapture g l)))
      else (g, 0, snd (snd (checkCapture g l))))"
proof (cases "\<not> isOwnPit g l \<and> board g ! nat l = 1")
  case False
  then show ?thesis by (auto simp: checkCapture_def)
next
  case True
  note nb = captureAdjacent_neighbours[OF assms(1,2), of "board g", folded lf_def rt_def]
  have keep: "(board g)[lf := 0, rt := 0] ! nat l = 1"
    using True neighbours_distinct[OF assms(1,2)] by (simp add: lf_def rt_def)
  show ?thesis
  proof (cases "0 < board g ! lf + board g ! rt")
    case True
    with \<open>\<not> isOwnPit g l \<and> board g ! nat l = 1\<close> nb keep show ?thesis
      by (simp add: checkCapture_def split_beta)
  next
    case False
    then have "(board g)[lf := 0, rt := 0] = board g"
      by (simp add: zero_update_id)
    with False \<open>\<not> isOwnPit g l \<and> board g ! nat l = 1\<close> nb show ?thesis
      by (simp add: checkCapture_def split_beta)
  qed
qed

lemma checkCapture_board:
  assumes "0 \<le> l" "l \<le> 13"
  shows "board (fst (checkCapture g l)) =
     (if \<not> isOwnPit g l \<and> board g ! nat l = 1
           \<and> 0 < board g ! nat (leftOf l) + board g ! nat (rightOf l)
      then (board g)[nat (leftOf l) := 0, nat (rightOf l) := 0, nat l := 0]
      else board g)"
  by (subst checkCapture_explicit[OF assms]) auto

lemma checkCapture_count:
  assumes "0 \<le> l" "l \<le> 13"
  shows "fst (snd (checkCapture g l)) =
     (if \<not> isOwnPit g l \<and> board g ! nat l = 1
           \<and> 0 < board g ! nat (leftOf l) + board g ! nat (rightOf l)
      then board g ! nat (leftOf l) + board g ! nat (rightOf l) + 1
      else 0)"
  by (subst checkCapture_explicit[OF assms]) auto

lemma checkGameEnd_scores:
  assumes "\<not> gameOver s"
  shows "playerScore (checkGameEnd s) =
           playerScore s + (if gameOver (checkGameEnd s) then sumStones (slice 0 7 (board s)) else 0)"
    and "aiScore (checkGameEnd s) =
           aiScore s + (if gameOver (checkGameEnd s) then sumStones (slice 7 14 (board s)) else 0)"
  using assms by (simp_all add: checkGameEnd_def Let_def)

text \<open>
  Claim C7 (capture rule). For every legal move, let \<open>b\<close> be the board after sowing
  and \<open>l\<close> the last pit sown. The capture step is entered iff \<open>l\<close> is on the opponent's
  side and holds exactly one stone. Then both circular neighbours of \<open>l\<close> are emptied
  into the mover's score, and iff they held at least one stone between them the single
  stone of \<open>l\<close> is scored and removed as well; if both neighbours were empty nothing
  is captured and the board stays as sown. In every other case nothing is captured.
  All of this is said of what \<open>makeMove\<close> returns: the captured count of the result,
  the board of the returned state, and both scores of the returned state, where the
  mover's score has grown by the captured stones and the opponent's by none, apart
  from each side's own leftover stones when the move ends the game.
\<close>

theorem capture_rule:
  assumes "isValidMove g p"
  shows "let b = sownBoard g p; l = lastPitOf g p;
             lf = nat (leftOf l); rt = nat (rightOf l);
             hit = (captureTriggered g p \<and> 0 < b ! lf + b ! rt);
             n = (if hit then b ! lf + b ! rt + 1 else 0);
             mover = currentPlayer g;
             g' = fst (makeMove g p)
         in capturedOf (snd (makeMove g p)) = n
          \<and> board g' = (if hit then b[lf := 0, rt := 0, nat l := 0] else b)
          \<and> scoreOf mover g' = scoreOf mover g + n
               + (if gameOver g' then sumStones (sideStones mover (board g')) else 0)
          \<and> scoreOf (opponent mover) g' = scoreOf (opponent mover) g
               + (if gameOver g' then sumStones (sideStones (opponent mover) (board g')) else 0)"
proof -
  let ?l = "lastPitOf g p" and ?b = "sownBoard g p"
  let ?hit = "captureTriggered g p \<and> 0 < ?b ! nat (leftOf ?l) + ?b ! nat (rightOf ?l)"
  let ?g' = "fst (makeMove g p)"
  note r = lastPitOf_range[OF assms]
  obtain b c cs where
    cc: "checkCapture (g\<lparr>board := ?b\<rparr>) ?l = (g\<lparr>board := b\<rparr>, c, cs)"
    and pe: "preEndState g p =
       g\<lparr>board := b,
          playerScore := playerScore g + (if currentPlayer g = Player then c else 0),
          aiScore := aiScore g + (if currentPlayer g = Player then 0 else c),
          currentPlayer := (if earnsBonus (g\<lparr>board := b\<rparr>) ?l
                            then currentPlayer g else opponent (currentPlayer g)),
          moveHistory := moveHistory (preEndState g p)\<rparr>"
    by (rule preEndState_eq)
  have own: "isOwnPit (g\<lparr>board := ?b\<rparr>) ?l = isOwnPit g ?l"
    by (simp add: isOwnPit_def)
  have "board (fst (checkCapture (g\<lparr>board := ?b\<rparr>) ?l)) = b"
    by (simp add: cc)
  with checkCapture_board[of ?l "g\<lparr>board := ?b\<rparr>"] r own
  have b_eq: "b = (if ?hit then ?b[nat (leftOf ?l) := 0, nat (rightOf ?l) := 0, nat ?l := 0] else ?b)"
    by (auto simp: captureTriggered_def)
  have "fst (snd (checkCapture (g\<lparr>board := ?b\<rparr>) ?l)) = c"
    by (simp add: cc)
  with checkCapture_count[of ?l "g\<lparr>board := ?b\<rparr>"] r own
  have c_eq: "c = (if ?hit then ?b ! nat (leftOf ?l) + ?b ! nat (rightOf ?l) + 1 else 0)"
    by (auto simp: captureTriggered_def)
  have s_board: "board (preEndState g p) = b" by (subst pe) simp
  have s_ps: "playerScore (preEndState g p) = playerScore g + (if currentPlayer g = Player then c else 0)"
    by (subst pe) simp
  have s_as: "aiScore (preEndState g p) = aiScore g + (if currentPlayer g = Player then 0 else c)"
    by (subst pe) simp
  have s_go: "\<not> gameOver (preEndState g p)"
    using assms by (subst pe) (simp add: isValidMove_iff)
  have g': "?g' = checkGameEnd (preEndState g p)"
    by (rule makeMove_valid(1)[OF assms])
  have cap: "capturedOf (snd (makeMove g p)) = c"
    by (simp add: makeMove_valid[OF assms] cc)
  have fin: "board ?g' = b"
    by (simp add: g' checkGameEnd_frame s_board)
  have f_ps: "playerScore ?g' = playerScore g + (if currentPlayer g = Player then c else 0)
                + (if gameOver ?g' then sumStones (slice 0 7 b) else 0)"
    unfolding g' using checkGameEnd_scores(1)[OF s_go] by (simp add: s_ps s_board)
  have f_as: "aiScore ?g' = aiScore g + (if currentPlayer g = Player then 0 else c)
                + (if gameOver ?g' then sumStones (slice 7 14 b) else 0)"
    unfolding g' using checkGameEnd_scores(2)[OF s_go] by (simp add: s_as s_board)
  have sc1: "scoreOf (currentPlayer g) ?g' = scoreOf (currentPlayer g) g + c
               + (if gameOver ?g' then sumStones (sideStones (currentPlayer g) b) else 0)"
    by (simp add: scoreOf_def sideStones_def f_ps f_as)
  have sc2: "scoreOf (opponent (currentPlayer g)) ?g' = scoreOf (opponent (currentPlayer g)) g
               + (if gameOver ?g' then sumStones (sideStones (opponent (currentPlayer g)) b) else 0)"
    by (simp add: scoreOf_def sideStones_def opponent_def f_ps f_as)
  show ?thesis
    unfolding Let_def cap fin sc1 sc2
    using b_eq c_eq by simp
qed

theorem capture_rule_witness:
  "isValidMove midGame 7 \<and> lastPitOf midGame 7 = 1 \<and> captureTriggered midGame 7
   \<and> sownBoard midGame 7 = [8, 1, 8, 1, 1, 1, 8, 0, 9, 8, 14, 7, 1, 8]
   \<and> capturedOf (snd (makeMove midGame 7)) = 17
   \<and> board (fst (makeMove midGame 7)) = [0, 0, 0, 1, 1, 1, 8, 0, 9, 8, 14, 7, 1, 8]
   \<and> aiScore midGame = 21 \<and> aiScore (fst (makeMove midGame 7)) = 38
   \<and> playerScore (fst (makeMove midGame 7)) = playerScore midGame
   \<and> isValidMove nearEnd 5 \<and> lastPitOf nearEnd 5 = 7 \<and> captureTriggered nearEnd 5
   \<and> sownBoard nearEnd 5 = [0, 0, 0, 0, 0, 0, 10, 1, 9, 8, 14, 7, 0, 9]
   \<and> capturedOf (snd (makeMove nearEnd 5)) = 20
   \<and> board (fst (makeMove nearEnd 5)) = [0, 0, 0, 0, 0, 0, 0, 0, 0, 8, 14, 7, 0, 9]
   \<and> playerScore nearEnd = 0 \<and> playerScore (fst (makeMove nearEnd 5)) = 20
   \<and> aiScore nearEnd = 38 \<and> aiScore (fst (makeMove nearEnd 5)) = 76"
proof -
  have v: "isValidMove midGame 7" by code_simp
  have l: "lastPitOf midGame 7 = 1" by code_simp
  have t: "captureTriggered midGame 7" by code_simp
  have b: "sownBoard midGame 7 = [8, 1, 8, 1, 1, 1, 8, 0, 9, 8, 14, 7, 1, 8]" by code_simp
  have p: "currentPlayer midGame = AI" by code_simp
  have a: "aiScore midGame = 21" by code_simp
  have o: "\<not> gameOver (fst (makeMove midGame 7))" by code_simp
  have m: "capturedOf (snd (makeMove midGame 7)) = 17
     \<and> board (fst (makeMove midGame 7)) = [0, 0, 0, 1, 1, 1, 8, 0, 9, 8, 14, 7, 1, 8]
     \<and> aiScore (fst (makeMove midGame 7)) = 38
     \<and> playerScore (fst (makeMove midGame 7)) = playerScore midGame"
    using capture_rule[OF v]
    by (simp add: Let_def l t b p a o leftOf_def rightOf_def scoreOf_def opponent_def)
  have v': "isValidMove nearEnd 5" by code_simp
  have l': "lastPitOf nearEnd 5 = 7" by code_simp
  have t': "captureTriggered nearEnd 5" by code_simp
  have b': "sownBoard nearEnd 5 = [0, 0, 0, 0, 0, 0, 10, 1, 9, 8, 14, 7, 0, 9]" by code_simp
  have p': "currentPlayer nearEnd = Player" by code_simp
  have s': "playerScore nearEnd = 0" "aiScore nearEnd = 38" by code_simp+
  have o': "gameOver (fst (makeMove nearEnd 5))" by code_simp
  have m': "capturedOf (snd (makeMove nearEnd 5)) = 20
     \<and> board (fst (makeMove nearEnd 5)) = [0, 0, 0, 0, 0, 0, 0, 0, 0, 8, 14, 7, 0, 9]
     \<and> playerScore (fst (makeMove nearEnd 5)) = 20
     \<and> aiScore (fst (makeMove nearEnd 5)) = 76"
    using capture_rule[OF v']
    by (simp add: Let_def l' t' b' p' s' o' leftOf_def rightOf_def scoreOf_def opponent_def
          sideStones_def slice_def sumStones_def)
  from m m' v l t b a v' l' t' b' s' show ?thesis by simp
qed

lemma initial_conserved: "length (board initializeGame) = 14 \<and> conserved initializeGame"
  by (simp add: initializeGame_def conserved_def totalStones_def eval_nat_numeral)

lemma preEndState_total:
  assumes "isValidMove g p" "length (board g) = 14"
  shows "length (board (preEndState g p)) = 14"
    and "totalStones (preEndState g p) = totalStones g"
    and "gameOver (preEndState g p) = False"
proof -
  let ?l = "lastPitOf g p" and ?b = "sownBoard g p"
  note r = lastPitOf_range[OF assms(1)]
  obtain b c cs where
    cc: "checkCapture (g\<lparr>board := ?b\<rparr>) ?l = (g\<lparr>board := b\<rparr>, c, cs)"
    and pe: "preEndState g p =
       g\<lparr>board := b,
          playerScore := playerScore g + (if currentPlayer g = Player then c else 0),
          aiScore := aiScore g + (if currentPlayer g = Player then 0 else c),
          currentPlayer := (if earnsBonus (g\<lparr>board := b\<rparr>) ?l
                            then currentPlayer g else opponent (currentPlayer g)),
          moveHistory := moveHistory (preEndState g p)\<rparr>"
    by (rule preEndState_eq)
  have len: "length (board (g\<lparr>board := ?b\<rparr>)) = 14"
    using assms(2) by (simp add: sownBoard_length)
  from checkCapture_sum[of ?l "g\<lparr>board := ?b\<rparr>"] r len cc
  have s: "sum_list b + c = sum_list ?b" and lb: "length b = 14" by simp_all
  have s_board: "board (preEndState g p) = b" by (subst pe) simp
  have s_ps: "playerScore (preEndState g p) = playerScore g + (if currentPlayer g = Player then c else 0)"
    by (subst pe) simp
  have s_as: "aiScore (preEndState g p) = aiScore g + (if currentPlayer g = Player then 0 else c)"
    by (subst pe) simp
  have s_go: "gameOver (preEndState g p) = gameOver g" by (subst pe) simp
  show "length (board (preEndState g p)) = 14" by (simp add: s_board lb)
  show "totalStones (preEndState g p) = totalStones g"
    using s sownBoard_sum[OF assms] by (simp add: totalStones_def s_board s_ps s_as)
  show "gameOver (preEndState g p) = False"
    using assms(1) by (simp add: s_go isValidMove_iff)
qed

lemma checkGameEnd_conserved:
  assumes "length (board s) = 14" "totalStones s = 96" "\<not> gameOver s"
  shows "conserved (checkGameEnd s)"
proof -
  have "sum_list (slice 0 7 (board s)) + sum_list (slice 7 14 (board s)) = sum_list (board s)"
    using sides_sum[of "board s"] assms(1) by simp
  with assms(2,3) show ?thesis
    by (simp add: checkGameEnd_def Let_def conserved_def sumStones_sum_list totalStones_def)
qed

lemma makeMove_conserved:
  assumes "length (board g) = 14" "conserved g"
  shows "length (board (fst (makeMove g p))) = 14 \<and> conserved (fst (makeMove g p))"
proof (cases "isValidMove g p")
  case False
  with assms show ?thesis by (simp add: makeMove_invalid)
next
  case True
  then have "\<not> gameOver g" by (simp add: isValidMove_iff)
  with assms(2) have t: "totalStones g = 96" by (simp add: conserved_def)
  note pe = preEndState_total[OF True assms(1)]
  from checkGameEnd_conserved[of "preEndState g p"] pe t
  have "conserved (checkGameEnd (preEndState g p))" by simp
  then show ?thesis
    by (simp add: makeMove_valid[OF True] checkGameEnd_frame pe)
qed

lemma reachable_invariant: "reachable g \<Longrightarrow> length (board g) = 14 \<and> conserved g"
proof (induction rule: reachable.induct)
  case reach_init
  show ?case by (rule initial_conserved)
next
  case (reach_move g p)
  then show ?case using makeMove_conserved[of g p] by simp
qed

text \<open>
  Claim C1 (stone conservation), as the code has it. In every state reachable from
  the initial state by \<open>makeMove\<close> calls, pits plus both scores are 96 as long as the
  game is not over; once it is over the two scores alone are 96, because
  \<open>checkGameEnd\<close> adds the stones left on the board to the scores and leaves them in
  the pits.
\<close>

theorem stone_conservation:
  "reachable g \<Longrightarrow>
     (if gameOver g then playerScore g + aiScore g = 96
      else sum_list (board g) + playerScore g + aiScore g = 96)"
  using reachable_invariant[of g] by (auto simp: conserved_def totalStones_def)

lemma reachable_playMoves: "reachable g \<Longrightarrow> reachable (playMoves g ps)"
proof (induction ps arbitrary: g)
  case Nil
  then show ?case by (simp add: playMoves_def)
next
  case (Cons p ps)
  from Cons.IH[OF reach_move[OF Cons.prems, of p]] show ?case
    by (simp add: playMoves_def)
qed

theorem stone_conservation_witness:
  "reachable (playMoves initializeGame [4, 12]) \<and> \<not> gameOver (playMoves initializeGame [4, 12])
   \<and> sum_list (board (playMoves initializeGame [4, 12]))
       + playerScore (playMoves initializeGame [4, 12]) + aiScore (playMoves initializeGame [4, 12]) = 96
   \<and> reachable (playMoves initializeGame shortGame) \<and> gameOver (playMoves initializeGame shortGame)
   \<and> playerScore (playMoves initializeGame shortGame) + aiScore (playMoves initializeGame shortGame) = 96"
proof -
  have r: "reachable (playMoves initializeGame [4, 12])"
    by (rule reachable_playMoves[OF reach_init])
  have n: "\<not> gameOver (playMoves initializeGame [4, 12])"
    by code_simp
  have r': "reachable (playMoves initializeGame shortGame)"
    by (rule reachable_playMoves[OF reach_init])
  have n': "gameOver (playMoves initializeGame shortGame)"
    by code_simp
  from stone_conservation[OF r] stone_conservation[OF r'] n n' r r' show ?thesis by simp
qed

text \<open>
  Claim C1 as stated fails in a state where the game has just ended: after the eight
  moves of \<open>shortGame\<close> the game is over and pits plus scores are 134, not 96.
\<close>

theorem conservation_counterexample:
  "reachable (playMoves initializeGame shortGame)
   \<and> gameOver (playMoves initializeGame shortGame)
   \<and> sum_list (board (playMoves initializeGame shortGame))
       + playerScore (playMoves initializeGame shortGame)
       + aiScore (playMoves initializeGame shortGame) = 134"
proof -
  have "reachable (playMoves initializeGame shortGame)"
    by (rule reachable_playMoves[OF reach_init])
  moreover have "gameOver (playMoves initializeGame shortGame)
   \<and> sum_list (board (playMoves initializeGame shortGame))
       + playerScore (playMoves initializeGame shortGame)
       + aiScore (playMoves initializeGame shortGame) = 134"
    by code_simp
  ultimately show ?thesis by simp
qed

text \<open>
  Claim C2 (terminal transition), as the code has it. For every legal move after
  which side A or side B is empty, the returned state is the state before the end
  check with \<open>gameOver\<close> set, each side's remaining stones added to that side's own
  score, and \<open>winner\<close> the side with the strictly higher final score, or the tie.
  Nothing else changes: in particular the board keeps the remaining stones.
\<close>

theorem terminal_transition:
  assumes "isValidMove g p"
    and "sideEmpty Player (board (preEndState g p)) \<or> sideEmpty AI (board (preEndState g p))"
  shows "let s = preEndState g p;
             ps = playerScore s + sumStones (sideStones Player (board s));
             as = aiScore s + sumStones (sideStones AI (board s))
         in fst (makeMove g p) =
              s\<lparr> gameOver := True, playerScore := ps, aiScore := as,
                 winner := Some (finalWinner ps as) \<rparr>
          \<and> board (fst (makeMove g p)) = board s"
  using assms(2)
  by (simp add: makeMove_valid[OF assms(1)] checkGameEnd_def Let_def sideEmpty_def sideStones_def
        finalWinner_def)

theorem terminal_transition_witness:
  "isValidMove nearEnd 5 \<and> sideEmpty Player (board (preEndState nearEnd 5))
   \<and> gameOver (fst (makeMove nearEnd 5))
   \<and> playerScore (fst (makeMove nearEnd 5)) = 20 \<and> aiScore (fst (makeMove nearEnd 5)) = 76
   \<and> winner (fst (makeMove nearEnd 5)) = Some WinAI"
proof -
  have v: "isValidMove nearEnd 5" by code_simp
  have e: "sideEmpty Player (board (preEndState nearEnd 5))" by code_simp
  have ps: "playerScore (preEndState nearEnd 5) + sumStones (sideStones Player (board (preEndState nearEnd 5))) = 20"
    by code_simp
  have as: "aiScore (preEndState nearEnd 5) + sumStones (sideStones AI (board (preEndState nearEnd 5))) = 76"
    by code_simp
  from terminal_transition[OF v disjI1[OF e]] ps as v e show ?thesis
    by (simp add: Let_def finalWinner_def)
qed

text \<open>
  Claim C2 as stated fails on "all pits are left at zero": the last move of
  \<open>shortGame\<close> empties side A and ends the game, and 38 stones stay in the pits of
  side B.
\<close>

theorem terminal_pits_counterexample:
  "isValidMove nearEnd 5 \<and> sideEmpty Player (board (preEndState nearEnd 5))
   \<and> gameOver (fst (makeMove nearEnd 5))
   \<and> board (fst (makeMove nearEnd 5)) = [0, 0, 0, 0, 0, 0, 0, 0, 0, 8, 14, 7, 0, 9]"
  by code_simp

lemma simulateMove_restores:
  "fst (simulateMove g p) = g\<lparr>moveHistory := moveHistory (fst (makeMove g p))\<rparr>"
proof (cases "isValidMove g p")
  case False
  then show ?thesis by (simp add: simulateMove_def makeMove_invalid)
next
  case True
  obtain b c cs where
    pe: "preEndState g p =
       g\<lparr>board := b,
          playerScore := playerScore g + (if currentPlayer g = Player then c else 0),
          aiScore := aiScore g + (if currentPlayer g = Player then 0 else c),
          currentPlayer := (if earnsBonus (g\<lparr>board := b\<rparr>) (lastPitOf g p)
                            then currentPlayer g else opponent (currentPlayer g)),
          moveHistory := moveHistory (preEndState g p)\<rparr>"
    by (rule preEndState_eq)
  have "fst (simulateMove g p) =
        (checkGameEnd (preEndState g p))\<lparr> board := board g, playerScore := playerScore g, aiScore := aiScore g,
               currentPlayer := currentPlayer g, gameOver := gameOver g,
               winner := winner g \<rparr>"
    using makeMove_valid(1)[OF True] by (simp add: simulateMove_def split_beta)
  also have "\<dots> = g\<lparr>moveHistory := moveHistory (preEndState g p)\<rparr>"
    by (subst (1 2) pe) (simp add: checkGameEnd_def Let_def)
  finally show ?thesis
    by (simp add: makeMove_valid(1)[OF True] checkGameEnd_frame)
qed

lemma simulateMove_appends:
  assumes "isValidMove g p"
  shows "\<exists>e. fst (simulateMove g p) = g\<lparr>moveHistory := moveHistory g @ [e]\<rparr>"
proof -
  obtain e where "moveHistory (preEndState g p) = moveHistory g @ [e]"
    using preEndState_history[of g p] by blast
  then have "fst (simulateMove g p) = g\<lparr>moveHistory := moveHistory g @ [e]\<rparr>"
    by (simp add: simulateMove_restores makeMove_valid(1)[OF assms] checkGameEnd_frame)
  then show ?thesis by blast
qed

text \<open>
  Claim C3 (simulate-and-restore exactness) does not hold of the code. On a new game,
  \<open>simulateMove 0\<close> returns a game that differs from the one it was given: the six
  saved fields are restored, and the move history, empty before the call, has one
  entry after it.
\<close>

theorem simulateMove_grows_history:
  "fst (simulateMove initializeGame 0) \<noteq> initializeGame
   \<and> moveHistory initializeGame = []
   \<and> length (moveHistory (fst (simulateMove initializeGame 0))) = 1
   \<and> board (fst (simulateMove initializeGame 0)) = board initializeGame
   \<and> playerScore (fst (simulateMove initializeGame 0)) = playerScore initializeGame
   \<and> aiScore (fst (simulateMove initializeGame 0)) = aiScore initializeGame
   \<and> currentPlayer (fst (simulateMove initializeGame 0)) = currentPlayer initializeGame
   \<and> gameOver (fst (simulateMove initializeGame 0)) = gameOver initializeGame
   \<and> winner (fst (simulateMove initializeGame 0)) = winner initializeGame"
proof -
  have l: "length (moveHistory (fst (simulateMove initializeGame 0))) = 1" by code_simp
  have e: "moveHistory initializeGame = []" by (simp add: initializeGame_def)
  from l e have "fst (simulateMove initializeGame 0) \<noteq> initializeGame" by auto
  with l e show ?thesis by (simp add: simulateMove_restores)
qed

section \<open>The search\<close>

text \<open>
  Alpha-beta against the exhaustive search. The loops are compared child by child:
  a child searched with window \<open>(lo, hi)\<close> returns a value that is \<open>windowExact\<close> for
  its exhaustive value, and so does the loop; at the root, where the window is the
  whole line, the running best score and best move of both searches agree.
\<close>

lemma NegInf_least [simp]:
  "NegInf \<le> x" "\<not> x < NegInf" "(x \<le> NegInf) = (x = NegInf)" "(NegInf < x) = (x \<noteq> NegInf)"
  by (cases x; simp add: less_xint_def)+

lemma PosInf_greatest [simp]:
  "x \<le> PosInf" "\<not> PosInf < x" "(PosInf \<le> x) = (x = PosInf)" "(x < PosInf) = (x \<noteq> PosInf)"
  by (cases x; simp add: less_xint_def)+

lemma fullMaxLoop_score:
  "score (fullMaxLoop recF g ms M b) = max M (score (fullMaxLoop recF g ms NegInf None))"
proof (induction ms arbitrary: M b)
  case Nil
  show ?case by (simp add: max_def)
next
  case (Cons m ms)
  let ?v = "score (recF (tempGameOf (snd (simulateMove g m))) False)"
  have "score (fullMaxLoop recF g (m # ms) M b) = max (max M ?v) (score (fullMaxLoop recF g ms NegInf None))"
    by (subst fullMaxLoop.simps, simp only: Let_def, subst Cons.IH) (auto simp: max_def)
  moreover have "score (fullMaxLoop recF g (m # ms) NegInf None) = max ?v (score (fullMaxLoop recF g ms NegInf None))"
    by (subst fullMaxLoop.simps, simp only: Let_def, subst Cons.IH) (auto simp: max_def)
  ultimately show ?case by (simp add: max.assoc)
qed

lemma fullMinLoop_score:
  "score (fullMinLoop recF g ms M b) = min M (score (fullMinLoop recF g ms PosInf None))"
proof (induction ms arbitrary: M b)
  case Nil
  show ?case by (simp add: min_def)
next
  case (Cons m ms)
  let ?v = "score (recF (tempGameOf (snd (simulateMove g m))) True)"
  have "score (fullMinLoop recF g (m # ms) M b) = min (min M ?v) (score (fullMinLoop recF g ms PosInf None))"
    by (subst fullMinLoop.simps, simp only: Let_def, subst Cons.IH) (auto simp: min_def)
  moreover have "score (fullMinLoop recF g (m # ms) PosInf None) = min ?v (score (fullMinLoop recF g ms PosInf None))"
    by (subst fullMinLoop.simps, simp only: Let_def, subst Cons.IH) (auto simp: min_def)
  ultimately show ?case by (simp add: min.assoc)
qed

lemma maxLoop_score_ge: "M \<le> score (maxLoop rec g ms M b lo hi)"
proof (induction ms arbitrary: M b lo)
  case Nil
  show ?case by simp
next
  case (Cons m ms)
  let ?r = "score (rec (tempGameOf (snd (simulateMove g m))) False lo hi)"
  show ?case
    using Cons.IH[of "if M < ?r then ?r else M" "if M < ?r then Some m else b" "max lo ?r"]
    by (auto simp: Let_def)
qed

lemma minLoop_score_le: "score (minLoop rec g ms M b lo hi) \<le> M"
proof (induction ms arbitrary: M b hi)
  case Nil
  show ?case by simp
next
  case (Cons m ms)
  let ?r = "score (rec (tempGameOf (snd (simulateMove g m))) True lo hi)"
  show ?case
    using Cons.IH[of "if ?r < M then ?r else M" "if ?r < M then Some m else b" "min hi ?r"]
    by (auto simp: Let_def)
qed

lemma window_nil_max: "M \<le> lo \<Longrightarrow> lo < hi \<Longrightarrow> windowExact lo hi NegInf M"
  by (auto simp: windowExact_def)

lemma window_nil_min: "hi \<le> M \<Longrightarrow> lo < hi \<Longrightarrow> windowExact lo hi PosInf M"
  by (auto simp: windowExact_def)

lemma window_break_max:
  assumes "lo < hi" "M \<le> lo" "windowExact lo hi v r" "hi \<le> max lo r"
  shows "windowExact lo hi (max v W) (if M < r then r else M)"
proof -
  from assms(1,4) have "hi \<le> r" by (auto simp: max_def split: if_splits)
  moreover from this assms(3) have "r \<le> v" by (simp add: windowExact_def)
  moreover from \<open>hi \<le> r\<close> assms(1,2) have "M < r" by auto
  ultimately show ?thesis using assms(1) by (auto simp: windowExact_def max_def)
qed

lemma window_step_max:
  assumes "lo < hi" "windowExact lo hi v r" "windowExact (max lo r) hi W R" "r \<le> R"
  shows "windowExact lo hi (max v W) R"
  unfolding windowExact_def
proof (intro conjI impI)
  assume a: "R \<le> lo"
  then have "R \<le> max lo r" by (auto simp: max_def)
  with assms(3) have "W \<le> R" by (simp add: windowExact_def)
  moreover from assms(4) a have "r \<le> lo" by auto
  with assms(2,4) have "v \<le> R" by (auto simp: windowExact_def)
  ultimately show "max v W \<le> R" by auto
next
  assume a: "lo < R \<and> R < hi"
  show "R = max v W"
  proof (cases "R \<le> max lo r")
    case True
    with assms(3) have w: "W \<le> R" by (simp add: windowExact_def)
    from True a have "R \<le> r" by (auto simp: max_def split: if_splits)
    with assms(4) have e: "R = r" by auto
    with a assms(2) have "r = v" by (simp add: windowExact_def)
    with e w show ?thesis by (auto simp: max_def)
  next
    case False
    then have lt: "max lo r < R" by (simp only: not_le)
    with assms(3) a have e: "R = W" by (simp add: windowExact_def)
    from lt have "r < R" by auto
    with assms(1,2) a have "v \<le> R"
      by (cases "r \<le> lo") (auto simp: windowExact_def)
    with e show ?thesis by (auto simp: max_def)
  qed
next
  assume "hi \<le> R"
  with assms(3) have "R \<le> W" by (simp add: windowExact_def)
  then show "R \<le> max v W" by (auto simp: max_def)
qed

lemma window_break_min:
  assumes "lo < hi" "hi \<le> M" "windowExact lo hi v r" "min hi r \<le> lo"
  shows "windowExact lo hi (min v W) (if r < M then r else M)"
proof -
  from assms(1,4) have "r \<le> lo" by (auto simp: min_def split: if_splits)
  moreover from this assms(3) have "v \<le> r" by (simp add: windowExact_def)
  moreover from \<open>r \<le> lo\<close> assms(1,2) have "r < M" by auto
  ultimately show ?thesis using assms(1) by (auto simp: windowExact_def min_def)
qed

lemma window_step_min:
  assumes "lo < hi" "windowExact lo hi v r" "windowExact lo (min hi r) W R" "R \<le> r"
  shows "windowExact lo hi (min v W) R"
  unfolding windowExact_def
proof (intro conjI impI)
  assume "R \<le> lo"
  with assms(3) have "W \<le> R" by (simp add: windowExact_def)
  then show "min v W \<le> R" by (auto simp: min_def)
next
  assume a: "lo < R \<and> R < hi"
  show "R = min v W"
  proof (cases "min hi r \<le> R")
    case True
    with assms(3) have w: "R \<le> W" by (simp add: windowExact_def)
    from True a have "r \<le> R" by (auto simp: min_def split: if_splits)
    with assms(4) have e: "R = r" by auto
    with a assms(2) have "r = v" by (simp add: windowExact_def)
    with e w show ?thesis by (auto simp: min_def)
  next
    case False
    then have lt: "R < min hi r" by (simp only: not_le)
    with assms(3) a have e: "R = W" by (simp add: windowExact_def)
    from lt have "R < r" by auto
    with assms(1,2) a have "R \<le> v"
      by (cases "hi \<le> r") (auto simp: windowExact_def)
    with e show ?thesis by (auto simp: min_def)
  qed
next
  assume a: "hi \<le> R"
  then have "min hi r \<le> R" by (auto simp: min_def)
  with assms(3) have "R \<le> W" by (simp add: windowExact_def)
  moreover from assms(4) a have "hi \<le> r" by auto
  with assms(2,4) have "R \<le> v" by (auto simp: windowExact_def)
  ultimately show "R \<le> min v W" by auto
qed

lemma maxLoop_window:
  assumes ch: "\<And>h a b. a < b \<Longrightarrow> windowExact a b (score (recF h False)) (score (rec h False a b))"
  shows "M \<le> lo \<Longrightarrow> lo < hi \<Longrightarrow>
         windowExact lo hi (score (fullMaxLoop recF g ms NegInf None)) (score (maxLoop rec g ms M bm lo hi))"
proof (induction ms arbitrary: M bm lo)
  case Nil
  then show ?case by (simp add: window_nil_max)
next
  case (Cons m ms)
  define r where "r = score (rec (tempGameOf (snd (simulateMove g m))) False lo hi)"
  define v where "v = score (recF (tempGameOf (snd (simulateMove g m))) False)"
  define W where "W = score (fullMaxLoop recF g ms NegInf None)"
  define M' where "M' = (if M < r then r else M)"
  define b' where "b' = (if M < r then Some m else bm)"
  define R where "R = score (maxLoop rec g ms M' b' (max lo r) hi)"
  have c: "windowExact lo hi v r"
    unfolding v_def r_def by (rule ch[OF Cons.prems(2)])
  have Wc: "score (fullMaxLoop recF g (m # ms) NegInf None) = max v W"
    unfolding v_def W_def
    by (subst fullMaxLoop.simps, simp only: Let_def, subst fullMaxLoop_score) (auto simp: max_def)
  show ?case
  proof (cases "hi \<le> max lo r")
    case True
    then have "score (maxLoop rec g (m # ms) M bm lo hi) = (if M < r then r else M)"
      by (simp add: Let_def r_def)
    with window_break_max[OF Cons.prems(2,1) c True, of W] Wc show ?thesis by simp
  next
    case False
    then have step: "score (maxLoop rec g (m # ms) M bm lo hi) = R"
      by (simp add: Let_def r_def R_def M'_def b'_def)
    have "M' \<le> max lo r" using Cons.prems(1) by (auto simp: M'_def max_def)
    moreover have "max lo r < hi" using False by (simp only: not_le)
    ultimately have ih: "windowExact (max lo r) hi W R"
      unfolding W_def R_def by (rule Cons.IH)
    have "M' \<le> R" unfolding R_def by (rule maxLoop_score_ge)
    moreover have "r \<le> M'" by (auto simp: M'_def)
    ultimately have "r \<le> R" by (rule order_trans[rotated])
    from window_step_max[OF Cons.prems(2) c ih this] Wc step show ?thesis by simp
  qed
qed

lemma minLoop_window:
  assumes ch: "\<And>h a b. a < b \<Longrightarrow> windowExact a b (score (recF h True)) (score (rec h True a b))"
  shows "hi \<le> M \<Longrightarrow> lo < hi \<Longrightarrow>
         windowExact lo hi (score (fullMinLoop recF g ms PosInf None)) (score (minLoop rec g ms M bm lo hi))"
proof (induction ms arbitrary: M bm hi)
  case Nil
  then show ?case by (simp add: window_nil_min)
next
  case (Cons m ms)
  define r where "r = score (rec (tempGameOf (snd (simulateMove g m))) True lo hi)"
  define v where "v = score (recF (tempGameOf (snd (simulateMove g m))) True)"
  define W where "W = score (fullMinLoop recF g ms PosInf None)"
  define M' where "M' = (if r < M then r else M)"
  define b' where "b' = (if r < M then Some m else bm)"
  define R where "R = score (minLoop rec g ms M' b' lo (min hi r))"
  have c: "windowExact lo hi v r"
    unfolding v_def r_def by (rule ch[OF Cons.prems(2)])
  have Wc: "score (fullMinLoop recF g (m # ms) PosInf None) = min v W"
    unfolding v_def W_def
    by (subst fullMinLoop.simps, simp only: Let_def, subst fullMinLoop_score) (auto simp: min_def)
  show ?case
  proof (cases "min hi r \<le> lo")
    case True
    then have "score (minLoop rec g (m # ms) M bm lo hi) = (if r < M then r else M)"
      by (simp add: Let_def r_def)
    with window_break_min[OF Cons.prems(2,1) c True, of W] Wc show ?thesis by simp
  next
    case False
    then have step: "score (minLoop rec g (m # ms) M bm lo hi) = R"
      by (simp add: Let_def r_def R_def M'_def b'_def)
    have "min hi r \<le> M'" using Cons.prems(1) by (auto simp: M'_def min_def)
    moreover have "lo < min hi r" using False by (simp only: not_le)
    ultimately have ih: "windowExact lo (min hi r) W R"
      unfolding W_def R_def by (rule Cons.IH)
    have "R \<le> M'" unfolding R_def by (rule minLoop_score_le)
    moreover have "M' \<le> r" by (auto simp: M'_def)
    ultimately have "R \<le> r" by (rule order_trans)
    from window_step_min[OF Cons.prems(2) c ih this] Wc step show ?thesis by simp
  qed
qed

lemma minimax_window:
  "lo < hi \<Longrightarrow> windowExact lo hi (score (minimaxFull d g r)) (score (minimax d g r lo hi))"
proof (induction d arbitrary: g r lo hi)
  case 0
  show ?case by (simp add: windowExact_def)
next
  case (Suc d)
  show ?case
  proof (cases "gameOver g")
    case True
    then show ?thesis by (simp add: windowExact_def)
  next
    case False
    show ?thesis
    proof (cases r)
      case True
      have "windowExact lo hi (score (fullMaxLoop (minimaxFull d) g (getValidMoves g) NegInf None))
              (score (maxLoop (minimax d) g (getValidMoves g) NegInf None lo hi))"
        by (rule maxLoop_window[OF Suc.IH _ Suc.prems]) simp_all
      with True False show ?thesis by (simp add: minimaxStep_def)
    next
      case r: False
      have "windowExact lo hi (score (fullMinLoop (minimaxFull d) g (getValidMoves g) PosInf None))
              (score (minLoop (minimax d) g (getValidMoves g) PosInf None lo hi))"
        by (rule minLoop_window[OF Suc.IH _ Suc.prems]) simp_all
      with r False show ?thesis by (simp add: minimaxStep_def)
    qed
  qed
qed

lemma fullMaxLoop_top: "fullMaxLoop recF g ms PosInf b = \<lparr> score = PosInf, move = b \<rparr>"
  by (induction ms) (simp_all add: Let_def)

lemma fullMinLoop_bot: "fullMinLoop recF g ms NegInf b = \<lparr> score = NegInf, move = b \<rparr>"
  by (induction ms) (simp_all add: Let_def)

lemma maxLoop_root:
  assumes ch: "\<And>h a b. a < b \<Longrightarrow> windowExact a b (score (recF h False)) (score (rec h False a b))"
  shows "M \<noteq> PosInf \<Longrightarrow> maxLoop rec g ms M bm M PosInf = fullMaxLoop recF g ms M bm"
proof (induction ms arbitrary: M bm)
  case Nil
  show ?case by simp
next
  case (Cons m ms)
  define r where "r = score (rec (tempGameOf (snd (simulateMove g m))) False M PosInf)"
  define v where "v = score (recF (tempGameOf (snd (simulateMove g m))) False)"
  have c: "windowExact M PosInf v r"
    unfolding v_def r_def using Cons.prems by (intro ch) simp
  have pr: "maxLoop rec g (m # ms) M bm M PosInf =
      (if PosInf \<le> max M r
       then \<lparr> score = (if M < r then r else M), move = (if M < r then Some m else bm) \<rparr>
       else maxLoop rec g ms (if M < r then r else M) (if M < r then Some m else bm) (max M r) PosInf)"
    by (simp add: Let_def r_def)
  have fu: "fullMaxLoop recF g (m # ms) M bm =
      fullMaxLoop recF g ms (if M < v then v else M) (if M < v then Some m else bm)"
    by (simp add: Let_def v_def)
  consider "r \<le> M" | "M < r" "r \<noteq> PosInf" | "r = PosInf" by fastforce
  then show ?case
  proof cases
    case 1
    with c have "v \<le> M" by (auto simp: windowExact_def)
    then have nv: "\<not> M < v" by auto
    from 1 have nr: "\<not> M < r" "max M r = M" by (auto simp: max_def)
    show ?thesis
      unfolding pr fu using nv nr Cons.prems Cons.IH[of M bm] by simp
  next
    case 2
    with c have "r = v" by (auto simp: windowExact_def)
    with 2 have "M < v" "max M r = v" "v \<noteq> PosInf" by (auto simp: max_def)
    with \<open>r = v\<close> show ?thesis
      unfolding pr fu using Cons.IH[of v "Some m"] by simp
  next
    case 3
    with c have "v = PosInf" by (auto simp: windowExact_def)
    with 3 Cons.prems show ?thesis
      unfolding pr fu by (simp add: fullMaxLoop_top max_def)
  qed
qed

lemma minLoop_root:
  assumes ch: "\<And>h a b. a < b \<Longrightarrow> windowExact a b (score (recF h True)) (score (rec h True a b))"
  shows "M \<noteq> NegInf \<Longrightarrow> minLoop rec g ms M bm NegInf M = fullMinLoop recF g ms M bm"
proof (induction ms arbitrary: M bm)
  case Nil
  show ?case by simp
next
  case (Cons m ms)
  define r where "r = score (rec (tempGameOf (snd (simulateMove g m))) True NegInf M)"
  define v where "v = score (recF (tempGameOf (snd (simulateMove g m))) True)"
  have c: "windowExact NegInf M v r"
    unfolding v_def r_def using Cons.prems by (intro ch) simp
  have pr: "minLoop rec g (m # ms) M bm NegInf M =
      (if min M r \<le> NegInf
       then \<lparr> score = (if r < M then r else M), move = (if r < M then Some m else bm) \<rparr>
       else minLoop rec g ms (if r < M then r else M) (if r < M then Some m else bm) NegInf (min M r))"
    by (simp add: Let_def r_def)
  have fu: "fullMinLoop recF g (m # ms) M bm =
      fullMinLoop recF g ms (if v < M then v else M) (if v < M then Some m else bm)"
    by (simp add: Let_def v_def)
  consider "M \<le> r" | "r < M" "r \<noteq> NegInf" | "r = NegInf" by fastforce
  then show ?case
  proof cases
    case 1
    with c have "M \<le> v" by (auto simp: windowExact_def)
    then have nv: "\<not> v < M" by auto
    from 1 have nr: "\<not> r < M" "min M r = M" by (auto simp: min_def)
    show ?thesis
      unfolding pr fu using nv nr Cons.prems Cons.IH[of M bm] by simp
  next
    case 2
    with c have "r = v" by (auto simp: windowExact_def)
    with 2 have "v < M" "min M r = v" "v \<noteq> NegInf" by (auto simp: min_def)
    with \<open>r = v\<close> show ?thesis
      unfolding pr fu using Cons.IH[of v "Some m"] by simp
  next
    case 3
    with c have "v = NegInf" by (auto simp: windowExact_def)
    with 3 Cons.prems show ?thesis
      unfolding pr fu by (simp add: fullMinLoop_bot min_def)
  qed
qed

text \<open>
  Claim C5 (pruning equivalence). For every game state, depth and root role, the
  alpha-beta search started as \<open>chooseBestMove\<close> starts it, with alpha at minus
  infinity and beta at plus infinity, returns the same score and the same move as the
  exhaustive search.
\<close>

theorem pruning_equivalence:
  "minimax depth g isMaximizing NegInf PosInf = minimaxFull depth g isMaximizing"
proof (cases depth)
  case 0
  then show ?thesis by simp
next
  case (Suc d)
  have mx: "maxLoop (minimax d) g (getValidMoves g) NegInf None NegInf PosInf
            = fullMaxLoop (minimaxFull d) g (getValidMoves g) NegInf None"
    by (rule maxLoop_root[OF minimax_window]) simp_all
  have mn: "minLoop (minimax d) g (getValidMoves g) PosInf None NegInf PosInf
            = fullMinLoop (minimaxFull d) g (getValidMoves g) PosInf None"
    by (rule minLoop_root[OF minimax_window]) simp_all
  from Suc mx mn show ?thesis by (simp add: minimaxStep_def)
qed

theorem pruning_equivalence_witness:
  "minimax 2 afterFirst True NegInf PosInf = \<lparr> score = Fin 9, move = Some 9 \<rparr>
   \<and> minimaxFull 2 afterFirst True = \<lparr> score = Fin 9, move = Some 9 \<rparr>"
proof -
  have "minimaxFull 2 afterFirst True = \<lparr> score = Fin 9, move = Some 9 \<rparr>" by code_simp
  with pruning_equivalence[of 2 afterFirst True] show ?thesis by simp
qed

lemma maxLoop_role:
  "maxLoop rec g ms M bm lo hi = maxLoop (\<lambda>h r. rec h False) g ms M bm lo hi"
  by (induction ms arbitrary: M bm lo) (simp_all add: Let_def)

lemma minLoop_role:
  "minLoop rec g ms M bm lo hi = minLoop (\<lambda>h r. rec h True) g ms M bm lo hi"
  by (induction ms arbitrary: M bm hi) (simp_all add: Let_def)

text \<open>
  Claim C4 (search role after bonus turns), as the code has it. One step of the
  search only ever enters the recursion with the opposite of its own role, whatever
  the turn of the child state is: replacing the recursive call by one that ignores
  the role it is given and uses the flipped role changes nothing.
\<close>

theorem role_flips_every_ply:
  "minimaxStep rec g isMaximizing alpha beta
     = minimaxStep (flipped isMaximizing rec) g isMaximizing alpha beta
   \<and> minimax (Suc depth) g isMaximizing alpha beta
     = (if gameOver g then \<lparr> score = Fin (evaluatePosition g), move = None \<rparr>
        else minimaxStep (flipped isMaximizing (minimax depth)) g isMaximizing alpha beta)"
proof -
  have t: "flipped True rec' = (\<lambda>h r. rec' h False)" for rec'
    by (simp add: flipped_def fun_eq_iff)
  have f: "flipped False rec' = (\<lambda>h r. rec' h True)" for rec'
    by (simp add: flipped_def fun_eq_iff)
  have "minimaxStep rec' g isMaximizing alpha beta
     = minimaxStep (flipped isMaximizing rec') g isMaximizing alpha beta" for rec'
    using maxLoop_role[of rec'] minLoop_role[of rec']
    by (cases isMaximizing) (simp_all add: minimaxStep_def t f)
  then show ?thesis by simp
qed

text \<open>
  Claim C4 as stated fails where a move grants a bonus turn. In \<open>afterFirst\<close> the AI
  is to move, and its move from pit 10 earns a bonus turn, so the child state has the
  AI to move again and the role of its turn is the maximizing one. The search step
  still calls the recursion with the minimizing role for that child (the probe
  answers 0). The results differ too: at depth 2 the search returns pit 9 with score
  9, the search with roles taken from the turn returns pit 10 with score 189.
\<close>

theorem role_by_turn_counterexample:
  "currentPlayer afterFirst = AI
   \<and> getValidMoves afterFirst = [7, 8, 9, 10, 11, 12, 13]
   \<and> bonusOf (s_moveResult (snd (simulateMove afterFirst 10)))
   \<and> roleOfTurn (tempGameOf (snd (simulateMove afterFirst 10)))
   \<and> maxLoop roleProbe afterFirst [10] NegInf None NegInf PosInf = \<lparr> score = Fin 0, move = Some 10 \<rparr>
   \<and> minimaxStep roleProbe afterFirst True NegInf PosInf = \<lparr> score = Fin 0, move = Some 7 \<rparr>
   \<and> minimaxStep (byTurn roleProbe) afterFirst True NegInf PosInf = \<lparr> score = Fin 1, move = Some 10 \<rparr>
   \<and> minimax 2 afterFirst True NegInf PosInf = \<lparr> score = Fin 9, move = Some 9 \<rparr>
   \<and> minimaxByTurn 2 afterFirst True NegInf PosInf = \<lparr> score = Fin 189, move = Some 10 \<rparr>"
  by code_simp

section \<open>The evaluator\<close>

text \<open>
  Outside a finished game the evaluation is the static terms plus the capture term of
  the side to move.
\<close>

lemma simulateMove_result: "s_moveResult (snd (simulateMove g mv)) = snd (makeMove g mv)"
  by (simp add: simulateMove_def split_beta)

lemma capture_fold:
  "foldl (\<lambda>s mv. case snd (makeMove g mv) of
                      Inl e \<Rightarrow> s
                    | Inr r \<Rightarrow> if r_captured r > 0 then s + int (r_captured r) * 15 else s) a ms
   = a + sum_list (map (\<lambda>mv. 15 * int (capturedOf (snd (makeMove g mv)))) ms)"
proof (induction ms arbitrary: a)
  case Nil
  show ?case by simp
next
  case (Cons m ms)
  have "(case snd (makeMove g m) of Inl e \<Rightarrow> a
          | Inr r \<Rightarrow> if r_captured r > 0 then a + int (r_captured r) * 15 else a)
        = a + 15 * int (capturedOf (snd (makeMove g m)))"
    by (cases "snd (makeMove g m)") (simp_all add: capturedOf_def)
  then show ?case
    by (simp add: Cons.IH add.assoc)
qed

lemma evaluateCaptureOpportunities_sum:
  "evaluateCaptureOpportunities g = captureTermFor (currentPlayer g) g"
  by (simp add: evaluateCaptureOpportunities_def captureTermFor_def simulateMove_result capture_fold)

lemma evaluatePosition_split:
  "\<not> gameOver g \<Longrightarrow> evaluatePosition g = staticTerms g + captureTermFor (currentPlayer g) g"
  by (simp add: evaluatePosition_def staticTerms_def Let_def evaluateCaptureOpportunities_sum)

text \<open>
  Claim C9 (capture-opportunity term of the evaluator) does not hold of the code. In
  \<open>afterCapture\<close> the player is to move. The AI's legal moves capture nothing, the
  player's legal moves capture 9 stones in all, and the evaluation is the static
  terms plus 135: the term counts the moves of the side to move, not those of the AI.
\<close>

theorem capture_term_follows_turn:
  "currentPlayer afterCapture = Player \<and> \<not> gameOver afterCapture
   \<and> staticTerms afterCapture = 147
   \<and> captureTermFor AI afterCapture = 0
   \<and> captureTermFor Player afterCapture = 135
   \<and> evaluatePosition afterCapture = 282"
  by code_simp

section \<open>The move history is write-only\<close>

text \<open>
  What \<open>makeMove\<close> and \<open>simulateMove\<close> return does not depend on the history of the
  game they are given, so the entries that \<open>simulateMove\<close> leaves behind have no effect
  on any later evaluation or search.
\<close>

lemma checkCapture_history:
  "checkCapture (g\<lparr>moveHistory := h\<rparr>) l =
     ((fst (checkCapture g l))\<lparr>moveHistory := h\<rparr>, snd (checkCapture g l))"
  by (simp add: checkCapture_def isOwnPit_def split_beta)

lemma applyCapture_history:
  "applyCapture (g\<lparr>moveHistory := h\<rparr>) l =
     ((fst (applyCapture g l))\<lparr>moveHistory := h\<rparr>, snd (applyCapture g l))"
  by (simp add: applyCapture_def checkCapture_history split_beta)

lemma sowFrom_history:
  "sowFrom (g\<lparr>moveHistory := h\<rparr>) p = ((fst (sowFrom g p))\<lparr>moveHistory := h\<rparr>, snd (sowFrom g p))"
  by (simp add: sowFrom_def split_beta)

lemma earnsBonus_history: "earnsBonus (s\<lparr>moveHistory := h\<rparr>) l = earnsBonus s l"
  by (simp add: earnsBonus_def isOwnPit_def)

lemma checkGameEnd_history:
  "checkGameEnd (s\<lparr>moveHistory := h\<rparr>) = (checkGameEnd s)\<lparr>moveHistory := h\<rparr>"
  by (simp add: checkGameEnd_def Let_def)

lemma history_update_swap:
  "s\<lparr>moveHistory := h, currentPlayer := c\<rparr> = s\<lparr>currentPlayer := c, moveHistory := h\<rparr>"
  by (cases s) simp

lemma makeMove_history_independent:
  "snd (makeMove (g\<lparr>moveHistory := h\<rparr>) p) = snd (makeMove g p)"
proof -
  have iv: "isValidMove (g\<lparr>moveHistory := h\<rparr>) p = isValidMove g p"
    by (auto simp: isValidMove_def)
  have ge: "gameOver (checkGameEnd (s\<lparr>moveHistory := h'\<rparr>)) = gameOver (checkGameEnd s)"
    and wi: "winner (checkGameEnd (s\<lparr>moveHistory := h'\<rparr>)) = winner (checkGameEnd s)" for s h'
    by (simp_all add: checkGameEnd_history)
  show ?thesis
  proof (cases "isValidMove g p")
    case False
    then show ?thesis by (simp add: makeMove_def iv)
  next
    case True
    then show ?thesis
      by (simp add: makeMove_def iv sowFrom_history applyCapture_history split_beta Let_def
            earnsBonus_history history_update_swap ge wi)
  qed
qed

lemma simulateMove_history_independent:
  "snd (simulateMove (g\<lparr>moveHistory := h\<rparr>) p) = snd (simulateMove g p)"
proof -
  have iv: "isValidMove (g\<lparr>moveHistory := h\<rparr>) p = isValidMove g p"
    by (auto simp: isValidMove_def)
  have fs: "fst (makeMove (g\<lparr>moveHistory := h\<rparr>) p)
            = (fst (makeMove g p))\<lparr>moveHistory := moveHistory (fst (makeMove (g\<lparr>moveHistory := h\<rparr>) p))\<rparr>"
  proof (cases "isValidMove g p")
    case False
    then show ?thesis by (simp add: makeMove_def iv)
  next
    case True
    then show ?thesis
      by (simp add: makeMove_def iv sowFrom_history applyCapture_history split_beta Let_def
            earnsBonus_history history_update_swap checkGameEnd_history)
  qed
  have "board (fst (makeMove (g\<lparr>moveHistory := h\<rparr>) p)) = board (fst (makeMove g p))"
    "playerScore (fst (makeMove (g\<lparr>moveHistory := h\<rparr>) p)) = playerScore (fst (makeMove g p))"
    "aiScore (fst (makeMove (g\<lparr>moveHistory := h\<rparr>) p)) = aiScore (fst (makeMove g p))"
    "currentPlayer (fst (makeMove (g\<lparr>moveHistory := h\<rparr>) p)) = currentPlayer (fst (makeMove g p))"
    "gameOver (fst (makeMove (g\<lparr>moveHistory := h\<rparr>) p)) = gameOver (fst (makeMove g p))"
    "winner (fst (makeMove (g\<lparr>moveHistory := h\<rparr>) p)) = winner (fst (makeMove g p))"
    by (subst fs, simp)+
  then show ?thesis
    by (simp add: simulateMove_def split_beta makeMove_history_independent)
qed

end
